theory Spec2Isabelle
  imports Complex_Main "HOL-Library.AList"
begin

text \<open>
  The field index of the frontmatter statistics plugin (\<open>src/main.ts\<close>, class
  \<open>EnhancedFrontmatterStatsPlugin\<close>): the flattener, the four incremental mutation paths
  and the read path \<open>getFields\<close>, as functions on an explicit plugin state, with the host
  application (its file objects included) and the clock as arguments.
\<close>

section \<open>Frontmatter values and the flattener\<close>

text \<open>
  A parsed frontmatter value. A structured record is represented by the sequence that
  \<open>Object.entries\<close> yields for it, so the order of that sequence is the order in which
  the source's loop meets the keys (for keys that are array indices this is ascending
  numeric order, before the other keys). Numbers are restricted to the integers below
  \<open>2^53\<close> in absolute value, which a double holds exactly.
\<close>

datatype jv =
    JNull
  | JBool bool
  | JNum int
  | JStr string
  | JArr "jv list"
  | JObj "(string \<times> jv) list"

type_synonym frontmatter = "(string \<times> jv) list"

text \<open>
  \<open>const fullKey = prefix ? `${prefix}.${key}` : key\<close>: the empty string is falsy, so an
  empty prefix is the same as no prefix.
\<close>

definition fullKey :: "string \<Rightarrow> string \<Rightarrow> string" where
  "fullKey prefix key = (if prefix \<noteq> [] then prefix @ ''.'' @ key else key)"

text \<open>
  \<open>flattenFrontmatter(obj, prefix = '')\<close> (lines 226-240). The loop appends to \<open>result\<close> in the order of
  the entries; a value is recursed into exactly when
  \<open>typeof value === 'object' && value !== null && !Array.isArray(value)\<close>.
\<close>

function (sequential) flattenFrontmatter :: "frontmatter \<Rightarrow> string \<Rightarrow> (string \<times> jv) list" where
  "flattenFrontmatter [] prefix = []"
| "flattenFrontmatter ((key, JObj es) # rest) prefix =
     flattenFrontmatter es (fullKey prefix key) @ flattenFrontmatter rest prefix"
| "flattenFrontmatter ((key, v) # rest) prefix =
     (fullKey prefix key, v) # flattenFrontmatter rest prefix"
  by pat_completeness auto
termination
  by (relation "measure (\<lambda>(es, p). size_list (size_prod (\<lambda>_. 0) size) es)") auto

section \<open>Data model\<close>

text \<open>
  The host's \<open>TFile\<close> objects live in a store. A \<open>ref\<close> is the identity of one object,
  and a \<open>tfile\<close> holds the two properties that the source reads of it, \<open>path\<close> and
  \<open>extension\<close>. The plugin never copies a file: \<open>field.files.push(file)\<close> stores the
  reference it was handed, and \<open>f.path\<close> reads the object as it is at the moment of the
  comparison. The host renames a file by assigning the new path to the object, so every
  reference the index holds shows the new path from then on; the old path reaches the
  handler as the separate argument \<open>oldPath\<close>. Whether an abstract file is a \<open>TFile\<close>
  (\<open>instanceof\<close>) never changes, so it is part of the reference; an abstract file that is
  not a \<open>TFile\<close> is a folder.
\<close>

type_synonym ref = nat

record tfile =
  path :: string
  extension :: string

datatype tabstractfile = TFile ref | TFolder string

record value_stats =
  unique :: nat
  topValues :: "(string \<times> nat) list"
  typeDistribution :: "(string \<times> nat) list"

record FrontmatterField =
  name :: string
  count :: nat
  files :: "ref list"
  valueStats :: "value_stats option"

record PluginSettings =
  pageSize :: int
  ignoreFields :: "string list"
  cacheTTL :: int
  analyzeValues :: bool
  showProgress :: bool

definition DEFAULT_SETTINGS :: PluginSettings where
  "DEFAULT_SETTINGS =
     \<lparr>pageSize = 50, ignoreFields = [], cacheTTL = 600, analyzeValues = False, showProgress = True\<rparr>"

text \<open>The plugin object: its settings and the two private fields \<open>cache\<close> and \<open>lastUpdate\<close>.\<close>

record plugin =
  settings :: PluginSettings
  cache :: "FrontmatterField list"
  lastUpdate :: int

definition initial :: "PluginSettings \<Rightarrow> plugin" where
  "initial st = \<lparr>settings = st, cache = [], lastUpdate = 0\<rparr>"

text \<open>
  The host application at the moment of a call: the store of file objects (\<open>deref\<close>
  gives the properties an object has at that moment), \<open>app.vault.getMarkdownFiles()\<close> and
  \<open>app.metadataCache.getFileCache(file)?.frontmatter\<close> (\<open>None\<close> when there is no cache
  entry or no frontmatter). The clock \<open>Date.now()\<close> is an argument of every operation
  that reads it, in milliseconds.
\<close>

record host =
  deref :: "ref \<Rightarrow> tfile"
  getMarkdownFiles :: "ref list"
  getFileCache :: "ref \<Rightarrow> frontmatter option"

section \<open>Incremental mutation paths\<close>

text \<open>
  The expression shared by \<open>updateCacheForFile\<close> and \<open>updateCacheOnDelete\<close>: every record
  loses the files that have the given path, its count becomes the length of what is left,
  and records whose count is not positive are dropped.
\<close>

definition dropPath :: "host \<Rightarrow> string \<Rightarrow> FrontmatterField list \<Rightarrow> FrontmatterField list" where
  "dropPath h p c =
     filter (\<lambda>field. count field > 0)
       (map (\<lambda>field. field\<lparr>files := filter (\<lambda>f. path (deref h f) \<noteq> p) (files field),
                             count := length (filter (\<lambda>f. path (deref h f) \<noteq> p) (files field))\<rparr>) c)"

text \<open>In-place mutation of the first element that \<open>Array.prototype.find\<close> returns.\<close>

fun update_first :: "('a \<Rightarrow> bool) \<Rightarrow> ('a \<Rightarrow> 'a) \<Rightarrow> 'a list \<Rightarrow> 'a list" where
  "update_first P g [] = []"
| "update_first P g (x # xs) = (if P x then g x # xs else x # update_first P g xs)"

text \<open>
  \<open>if (!field.files.some(f => f.path === file.path)) { field.files.push(file); field.count++; }\<close>
\<close>

definition pushFile :: "host \<Rightarrow> ref \<Rightarrow> FrontmatterField \<Rightarrow> FrontmatterField" where
  "pushFile h file field =
     (if \<not> list_ex (\<lambda>f. path (deref h f) = path (deref h file)) (files field)
      then field\<lparr>files := files field @ [file], count := count field + 1\<rparr>
      else field)"

text \<open>
  One iteration of the loop of \<open>addFileToCache\<close> (lines 98-121) over the flattened
  entries: an ignored key is skipped; otherwise the record is found by name, or created
  with count 0 and pushed, and then the file is added to it unless it owns a file with
  that path.
\<close>

definition addEntry ::
  "host \<Rightarrow> string list \<Rightarrow> ref \<Rightarrow> FrontmatterField list \<Rightarrow> string \<times> jv \<Rightarrow> FrontmatterField list" where
  "addEntry h ign file c kv =
     (let key = fst kv in
      if key \<in> set ign then c
      else
        let c1 = (case find (\<lambda>f. name f = key) c of
                    None \<Rightarrow> c @ [\<lparr>name = key, count = 0, files = [], valueStats = None\<rparr>]
                  | Some _ \<Rightarrow> c)
        in update_first (\<lambda>f. name f = key) (pushFile h file) c1)"

definition addFileToCache :: "host \<Rightarrow> int \<Rightarrow> ref \<Rightarrow> plugin \<Rightarrow> plugin" where
  "addFileToCache h now file p =
     (case getFileCache h file of
        None \<Rightarrow> p
      | Some fm \<Rightarrow>
          p\<lparr>cache := foldl (addEntry h (ignoreFields (settings p)) file) (cache p)
                         (flattenFrontmatter fm []),
            lastUpdate := now\<rparr>)"

text \<open>
  \<open>updateCacheForFile\<close> (lines 59-71), \<open>updateCacheOnDelete\<close> (73-81),
  \<open>updateCacheOnRename\<close> (83-90), \<open>updateCacheOnCreate\<close> (92-96) and \<open>clearCache\<close>
  (123-126). In \<open>updateCacheOnRename\<close> the file handed over already has its new path and
  extension, and so has every reference to it that the index holds.
\<close>

definition updateCacheForFile :: "host \<Rightarrow> int \<Rightarrow> ref \<Rightarrow> plugin \<Rightarrow> plugin" where
  "updateCacheForFile h now file p =
     (if extension (deref h file) \<noteq> ''md'' then p
      else addFileToCache h now file (p\<lparr>cache := dropPath h (path (deref h file)) (cache p)\<rparr>))"

fun updateCacheOnDelete :: "host \<Rightarrow> tabstractfile \<Rightarrow> plugin \<Rightarrow> plugin" where
  "updateCacheOnDelete h (TFolder d) p = p"
| "updateCacheOnDelete h (TFile file) p =
     (if extension (deref h file) \<noteq> ''md'' then p
      else p\<lparr>cache := dropPath h (path (deref h file)) (cache p)\<rparr>)"

fun updateCacheOnRename :: "host \<Rightarrow> tabstractfile \<Rightarrow> string \<Rightarrow> plugin \<Rightarrow> plugin" where
  "updateCacheOnRename h (TFolder d) oldPath p = p"
| "updateCacheOnRename h (TFile file) oldPath p =
     (if extension (deref h file) \<noteq> ''md'' then p
      else p\<lparr>cache := map (\<lambda>field. field\<lparr>files := map (\<lambda>f. if path (deref h f) = oldPath then file else f)
                                                        (files field)\<rparr>) (cache p)\<rparr>)"

fun updateCacheOnCreate :: "host \<Rightarrow> int \<Rightarrow> tabstractfile \<Rightarrow> plugin \<Rightarrow> plugin" where
  "updateCacheOnCreate h now (TFolder d) p = p"
| "updateCacheOnCreate h now (TFile file) p =
     (if extension (deref h file) = ''md'' then addFileToCache h now file p else p)"

definition clearCache :: "plugin \<Rightarrow> plugin" where
  "clearCache p = p\<lparr>cache := [], lastUpdate := 0\<rparr>"

text \<open>
  The four event registrations of \<open>onload\<close> (lines 43-46). The host of a notification
  is the host as the handler finds it, after the change that the notification reports.
\<close>

datatype event =
    Changed ref
  | Deleted tabstractfile
  | Renamed tabstractfile string
  | Created tabstractfile

fun dispatch :: "host \<Rightarrow> int \<Rightarrow> event \<Rightarrow> plugin \<Rightarrow> plugin" where
  "dispatch h now (Changed file) p = updateCacheForFile h now file p"
| "dispatch h now (Deleted file) p = updateCacheOnDelete h file p"
| "dispatch h now (Renamed file oldPath) p = updateCacheOnRename h file oldPath p"
| "dispatch h now (Created file) p = updateCacheOnCreate h now file p"

section \<open>Value statistics\<close>

text \<open>
  \<open>let type = Array.isArray(value) ? 'array' : typeof value; if (value === null) type = 'null'\<close>
\<close>

fun type_tag :: "jv \<Rightarrow> string" where
  "type_tag JNull = ''null''"
| "type_tag (JBool b) = ''boolean''"
| "type_tag (JNum n) = ''number''"
| "type_tag (JStr s) = ''string''"
| "type_tag (JArr xs) = ''array''"
| "type_tag (JObj es) = ''object''"

text \<open>The decimal digits of a natural number.\<close>

function string_of_nat :: "nat \<Rightarrow> string" where
  "string_of_nat n =
     (if n < 10 then [char_of (48 + n)]
      else string_of_nat (n div 10) @ [char_of (48 + n mod 10)])"
  by pat_completeness auto
termination
  by (relation "measure id") auto

text \<open>
  \<open>String(value)\<close>, which the source evaluates only for a value that is neither an array
  nor an object; the last two equations are never reached. For a number it is the decimal
  numeral, as JavaScript prints an integer that a double holds exactly (the numbers of
  this model).
\<close>

fun js_String :: "jv \<Rightarrow> string" where
  "js_String JNull = ''null''"
| "js_String (JBool b) = (if b then ''true'' else ''false'')"
| "js_String (JNum n) = (if n < 0 then CHR ''-'' # string_of_nat (nat (- n)) else string_of_nat (nat n))"
| "js_String (JStr s) = s"
| "js_String (JArr xs) = []"
| "js_String (JObj es) = []"

text \<open>
  \<open>find\<close> an entry by its first component and increment its count in place, or push a
  new entry with count 1.
\<close>

definition bump :: "string \<Rightarrow> (string \<times> nat) list \<Rightarrow> (string \<times> nat) list" where
  "bump k xs =
     (case find (\<lambda>e. fst e = k) xs of
        Some _ \<Rightarrow> update_first (\<lambda>e. fst e = k) (\<lambda>e. (fst e, snd e + 1)) xs
      | None \<Rightarrow> xs @ [(k, 1)])"

text \<open>\<open>updateValueStats(stats, value)\<close> (lines 203-224).\<close>

definition updateValueStats :: "value_stats \<Rightarrow> jv \<Rightarrow> value_stats" where
  "updateValueStats stats v =
     (let ty = type_tag v;
          stats1 = stats\<lparr>typeDistribution := bump ty (typeDistribution stats)\<rparr>
      in if ty \<noteq> ''object'' \<and> ty \<noteq> ''array'' then
           (case find (\<lambda>e. fst e = js_String v) (topValues stats1) of
              Some _ \<Rightarrow> stats1\<lparr>topValues := bump (js_String v) (topValues stats1)\<rparr>
            | None \<Rightarrow> stats1\<lparr>topValues := topValues stats1 @ [(js_String v, 1)],
                              unique := length (topValues stats1) + 1\<rparr>)
         else stats1)"

section \<open>The plain object \<open>fieldsMap\<close>\<close>

text \<open>
  \<open>const fieldsMap: Record<string, FrontmatterField> = {}\<close> is an ordinary object, so it
  has the prototype \<open>Object.prototype\<close>. It is modelled by the list of its own
  properties in creation order. Reading \<open>fieldsMap[key]\<close> gives the own property when
  there is one, the inherited member when \<open>key\<close> names a property of
  \<open>Object.prototype\<close> (a function or, for \<open>__proto__\<close>, the prototype object itself:
  truthy, and without a \<open>files\<close> property), and \<open>undefined\<close> otherwise.
\<close>

definition Object_prototype_names :: "string list" where
  "Object_prototype_names =
     [''constructor'', ''hasOwnProperty'', ''isPrototypeOf'', ''propertyIsEnumerable'',
      ''toLocaleString'', ''toString'', ''valueOf'', ''__proto__'',
      ''__defineGetter__'', ''__defineSetter__'', ''__lookupGetter__'', ''__lookupSetter__'']"

datatype 'a property = Own 'a | Inherited | Undefined

definition obj_get :: "(string \<times> 'a) list \<Rightarrow> string \<Rightarrow> 'a property" where
  "obj_get m k =
     (case map_of m k of
        Some v \<Rightarrow> Own v
      | None \<Rightarrow> if k \<in> set Object_prototype_names then Inherited else Undefined)"

text \<open>
  \<open>Object.values\<close> lists the own properties whose key is an array index (a canonical
  decimal numeral below \<open>2^32 - 1\<close>) first, in ascending numeric order, and then the
  other string keys in creation order.
\<close>

definition index_value :: "string \<Rightarrow> int" where
  "index_value s = foldl (\<lambda>n c. 10 * n + (of_char c - 48)) 0 s"

definition is_array_index :: "string \<Rightarrow> bool" where
  "is_array_index s \<longleftrightarrow>
     s \<noteq> [] \<and> list_all (\<lambda>c. c \<in> set ''0123456789'') s \<and> (s = ''0'' \<or> hd s \<noteq> CHR ''0'')
     \<and> index_value s < 4294967295"

definition obj_values :: "(string \<times> 'a) list \<Rightarrow> 'a list" where
  "obj_values m =
     map snd (sort_key (\<lambda>e. index_value (fst e)) (filter (\<lambda>e. is_array_index (fst e)) m))
     @ map snd (filter (\<lambda>e. \<not> is_array_index (fst e)) m)"

section \<open>The read path\<close>

datatype js_error = TypeError

text \<open>
  What a call does to the outside: a header lookup for a document, and a call of the
  progress callback. \<open>(processedFiles / totalFiles) * 100\<close> is kept as the exact fraction;
  the code computes it in double arithmetic, which gives the same number whenever
  quotient and product are doubles, as for the 100 after the last document.
\<close>

datatype effect = Lookup ref | Progress rat

definition percent :: "nat \<Rightarrow> nat \<Rightarrow> rat" where
  "percent processedFiles totalFiles = of_nat processedFiles / of_nat totalFiles * 100"

text \<open>
  The body of \<open>if (!fieldsMap[key].files.some(f => f.path === file.path)) { ... }\<close> in
  \<open>getFields\<close>.
\<close>

definition countFile ::
  "PluginSettings \<Rightarrow> host \<Rightarrow> ref \<Rightarrow> jv \<Rightarrow> FrontmatterField \<Rightarrow> FrontmatterField" where
  "countFile st h file v field =
     (if \<not> list_ex (\<lambda>f. path (deref h f) = path (deref h file)) (files field)
      then field\<lparr>count := count field + 1, files := files field @ [file],
                 valueStats := (if analyzeValues st
                                then map_option (\<lambda>stats. updateValueStats stats v) (valueStats field)
                                else valueStats field)\<rparr>
      else field)"

definition newField :: "PluginSettings \<Rightarrow> string \<Rightarrow> FrontmatterField" where
  "newField st key =
     \<lparr>name = key, count = 0, files = [],
      valueStats = (if analyzeValues st
                    then Some \<lparr>unique = 0, topValues = [], typeDistribution = []\<rparr>
                    else None)\<rparr>"

text \<open>
  One iteration of the inner loop of \<open>getFields\<close>. For an inherited name
  \<open>!fieldsMap[key]\<close> is false, no record is created, \<open>fieldsMap[key].files\<close> is
  \<open>undefined\<close> and the call of \<open>some\<close> on it throws a \<open>TypeError\<close>.
\<close>

definition scanEntry ::
  "PluginSettings \<Rightarrow> host \<Rightarrow> ref \<Rightarrow> (string \<times> FrontmatterField) list \<Rightarrow> string \<times> jv
     \<Rightarrow> js_error + (string \<times> FrontmatterField) list" where
  "scanEntry st h file m kv =
     (let key = fst kv; v = snd kv in
      if key \<in> set (ignoreFields st) then Inr m
      else
        (case obj_get m key of
           Undefined \<Rightarrow> Inr (m @ [(key, countFile st h file v (newField st key))])
         | Own field \<Rightarrow> Inr (AList.update key (countFile st h file v field) m)
         | Inherited \<Rightarrow> Inl TypeError))"

fun scanEntries ::
  "PluginSettings \<Rightarrow> host \<Rightarrow> ref \<Rightarrow> (string \<times> FrontmatterField) list \<Rightarrow> (string \<times> jv) list
     \<Rightarrow> js_error + (string \<times> FrontmatterField) list" where
  "scanEntries st h file m [] = Inr m"
| "scanEntries st h file m (kv # kvs) =
     (case scanEntry st h file m kv of
        Inl e \<Rightarrow> Inl e
      | Inr m' \<Rightarrow> scanEntries st h file m' kvs)"

text \<open>
  The loop over \<open>markdownFiles\<close>, from the state \<open>(fieldsMap, processedFiles)\<close>; \<open>cb\<close>
  says whether a progress callback was passed. It returns the final \<open>fieldsMap\<close>, or the
  error thrown, and the effects in the order they happen.
\<close>

fun scanFiles ::
  "PluginSettings \<Rightarrow> host \<Rightarrow> bool \<Rightarrow> nat \<Rightarrow> ref list \<Rightarrow> (string \<times> FrontmatterField) list \<Rightarrow> nat
     \<Rightarrow> (js_error + (string \<times> FrontmatterField) list) \<times> effect list" where
  "scanFiles st h cb totalFiles [] m processedFiles = (Inr m, [])"
| "scanFiles st h cb totalFiles (file # rest) m processedFiles =
     (case getFileCache h file of
        None \<Rightarrow>
          (let (r, eff) = scanFiles st h cb totalFiles rest m (processedFiles + 1)
           in (r, Lookup file
                  # (if cb then [Progress (percent (processedFiles + 1) totalFiles)] else [])
                  @ eff))
      | Some fm \<Rightarrow>
          (case scanEntries st h file m (flattenFrontmatter fm []) of
             Inl e \<Rightarrow> (Inl e, [Lookup file])
           | Inr m' \<Rightarrow>
               (let (r, eff) = scanFiles st h cb totalFiles rest m' (processedFiles + 1)
                in (r, Lookup file
                       # (if cb \<and> showProgress st
                          then [Progress (percent (processedFiles + 1) totalFiles)] else [])
                       @ eff))))"

text \<open>\<open>xs.sort((a, b) => b.count - a.count)\<close>: a stable sort, largest count first.\<close>

definition sortByCountDesc :: "('a \<Rightarrow> nat) \<Rightarrow> 'a list \<Rightarrow> 'a list" where
  "sortByCountDesc cnt xs = sort_key (\<lambda>x. - int (cnt x)) xs"

definition trimTopValues :: "FrontmatterField \<Rightarrow> FrontmatterField" where
  "trimTopValues field =
     field\<lparr>valueStats :=
       map_option (\<lambda>stats. stats\<lparr>topValues := take 5 (sortByCountDesc snd (topValues stats))\<rparr>)
         (valueStats field)\<rparr>"

text \<open>The full rebuild: everything in \<open>getFields\<close> after the cache test.\<close>

record run =
  returned :: "js_error + FrontmatterField list"
  after :: plugin
  effects :: "effect list"

definition rebuild :: "host \<Rightarrow> bool \<Rightarrow> int \<Rightarrow> plugin \<Rightarrow> run" where
  "rebuild h cb now p =
     (let st = settings p;
          markdownFiles = getMarkdownFiles h;
          (r, eff) = scanFiles st h cb (length markdownFiles) markdownFiles [] 0
      in case r of
           Inl e \<Rightarrow> \<lparr>returned = Inl e, after = p, effects = eff\<rparr>
         | Inr fieldsMap \<Rightarrow>
             (let fieldsMap' = (if analyzeValues st
                                then map (\<lambda>e. (fst e, trimTopValues (snd e))) fieldsMap
                                else fieldsMap);
                  c = sortByCountDesc count (obj_values fieldsMap')
              in \<lparr>returned = Inr c, after = p\<lparr>cache := c, lastUpdate := now\<rparr>, effects = eff\<rparr>))"

text \<open>
  \<open>getFields(progressCallback?)\<close>. \<open>now\<close> is the reading of the clock in the cache test,
  \<open>now'\<close> the reading when the rebuilt index is stored.
\<close>

definition getFields :: "host \<Rightarrow> bool \<Rightarrow> int \<Rightarrow> int \<Rightarrow> plugin \<Rightarrow> run" where
  "getFields h cb now now' p =
     (if cache p \<noteq> [] \<and> now - lastUpdate p < cacheTTL (settings p) * 1000
      then \<lparr>returned = Inr (cache p), after = p, effects = []\<rparr>
      else rebuild h cb now' p)"

section \<open>Auxiliary notions for the properties\<close>

text \<open>
  A key is settled for a file in a cache when \<open>addFileToCache\<close> has nothing left to do
  for it: it is ignored, or the record that \<open>find\<close> returns for it already owns a file
  with that path.
\<close>

definition settled :: "host \<Rightarrow> string list \<Rightarrow> ref \<Rightarrow> FrontmatterField list \<Rightarrow> string \<Rightarrow> bool" where
  "settled h ign file c key \<longleftrightarrow>
     key \<in> set ign \<or>
     (case find (\<lambda>r. name r = key) c of
        None \<Rightarrow> False
      | Some r \<Rightarrow> list_ex (\<lambda>f. path (deref h f) = path (deref h file)) (files r))"

text \<open>
  The plugin states that can arise under fixed settings: the state at activation, and
  whatever a read, a host notification or \<open>clearCache\<close> makes of one, for any host,
  any event and any reading of the clock.
\<close>

inductive reachable :: "PluginSettings \<Rightarrow> plugin \<Rightarrow> bool" for st where
  start: "reachable st (initial st)"
| read: "reachable st p \<Longrightarrow> reachable st (after (getFields h cb now now' p))"
| notify: "reachable st p \<Longrightarrow> reachable st (dispatch h now ev p)"
| clear: "reachable st p \<Longrightarrow> reachable st (clearCache p)"

definition unignored :: "string list \<Rightarrow> FrontmatterField list \<Rightarrow> bool" where
  "unignored ign c = list_all (\<lambda>r. name r \<notin> set ign) c"

definition keyed :: "string list \<Rightarrow> (string \<times> FrontmatterField) list \<Rightarrow> bool" where
  "keyed ign m = list_all (\<lambda>e. name (snd e) = fst e \<and> fst e \<notin> set ign) m"

subsection \<open>Example documents\<close>

text \<open>
  A host given by the file objects in use with their present properties, the list of
  markdown files, and the parsed headers by path (the host looks a header up by the path
  of the file it is handed). The properties of an object that is not listed play no role.
\<close>

definition store :: "(ref \<times> tfile) list \<Rightarrow> ref \<Rightarrow> tfile" where
  "store objs f = (case map_of objs f of Some t \<Rightarrow> t | None \<Rightarrow> \<lparr>path = [], extension = []\<rparr>)"

definition host_with :: "(ref \<times> tfile) list \<Rightarrow> ref list \<Rightarrow> (string \<times> frontmatter) list \<Rightarrow> host" where
  "host_with objs mds hdrs =
     \<lparr>deref = store objs, getMarkdownFiles = mds,
      getFileCache = (\<lambda>f. map_of hdrs (path (store objs f)))\<rparr>"

text \<open>Three file objects.\<close>

definition doc_A :: ref where "doc_A = 0"
definition doc_B :: ref where "doc_B = 1"
definition doc_C :: ref where "doc_C = 2"

text \<open>
  The collection of the specification's scenario: \<open>A.md\<close> with
  \<open>{tags: ["x","y"], author: {name: "Bob"}}\<close>, \<open>B.md\<close> with \<open>{tags: ["z"]}\<close>, and \<open>C.md\<close>
  without a header.
\<close>

definition scenario :: host where
  "scenario =
     host_with
       [(doc_A, \<lparr>path = ''A.md'', extension = ''md''\<rparr>),
        (doc_B, \<lparr>path = ''B.md'', extension = ''md''\<rparr>),
        (doc_C, \<lparr>path = ''C.md'', extension = ''md''\<rparr>)]
       [doc_A, doc_B, doc_C]
       [(''A.md'', [(''tags'', JArr [JStr ''x'', JStr ''y'']), (''author'', JObj [(''name'', JStr ''Bob'')])]),
        (''B.md'', [(''tags'', JArr [JStr ''z''])])]"

text \<open>The same collection after \<open>B.md\<close> was edited to \<open>{author: {name: "Al"}}\<close>.\<close>

definition scenario_edited :: host where
  "scenario_edited =
     host_with
       [(doc_A, \<lparr>path = ''A.md'', extension = ''md''\<rparr>),
        (doc_B, \<lparr>path = ''B.md'', extension = ''md''\<rparr>),
        (doc_C, \<lparr>path = ''C.md'', extension = ''md''\<rparr>)]
       [doc_A, doc_B, doc_C]
       [(''A.md'', [(''tags'', JArr [JStr ''x'', JStr ''y'']), (''author'', JObj [(''name'', JStr ''Bob'')])]),
        (''B.md'', [(''author'', JObj [(''name'', JStr ''Al'')])])]"

text \<open>The same collection with the header \<open>{constructor: "x"}\<close> in \<open>A.md\<close>.\<close>

definition scenario_constructor :: host where
  "scenario_constructor =
     host_with
       [(doc_A, \<lparr>path = ''A.md'', extension = ''md''\<rparr>),
        (doc_B, \<lparr>path = ''B.md'', extension = ''md''\<rparr>),
        (doc_C, \<lparr>path = ''C.md'', extension = ''md''\<rparr>)]
       [doc_A, doc_B, doc_C]
       [(''A.md'', [(''constructor'', JStr ''x'')]),
        (''B.md'', [(''tags'', JArr [JStr ''z''])])]"

text \<open>The scenario's collection when only \<open>C.md\<close>, the document without a header, is left.\<close>

definition scenario_C :: host where
  "scenario_C = scenario\<lparr>getMarkdownFiles := [doc_C]\<rparr>"

text \<open>The index that the first read builds for the scenario under the default settings.\<close>

definition populated :: plugin where
  "populated = after (getFields scenario False 1 2 (initial DEFAULT_SETTINGS))"

text \<open>
  Three changes that follow the scenario, each with the host as it is afterwards.
  \<open>B.md\<close> is renamed to \<open>B.txt\<close>: the object \<open>B\<close> has the new path and extension, and is no
  markdown file any more. Then \<open>B.txt\<close> is deleted, which changes neither the markdown
  files nor the properties of the object \<open>B\<close>, so the host is as before. Then \<open>A.md\<close> is
  renamed to \<open>B.txt\<close>, a path that is free again.
\<close>

definition B_renamed :: host where
  "B_renamed =
     host_with
       [(doc_A, \<lparr>path = ''A.md'', extension = ''md''\<rparr>),
        (doc_B, \<lparr>path = ''B.txt'', extension = ''txt''\<rparr>),
        (doc_C, \<lparr>path = ''C.md'', extension = ''md''\<rparr>)]
       [doc_A, doc_C]
       [(''A.md'', [(''tags'', JArr [JStr ''x'', JStr ''y'']), (''author'', JObj [(''name'', JStr ''Bob'')])])]"

definition A_renamed :: host where
  "A_renamed =
     host_with
       [(doc_A, \<lparr>path = ''B.txt'', extension = ''txt''\<rparr>),
        (doc_B, \<lparr>path = ''B.txt'', extension = ''txt''\<rparr>),
        (doc_C, \<lparr>path = ''C.md'', extension = ''md''\<rparr>)]
       [doc_C]
       []"

subsection \<open>The flattener as the specification words it\<close>

text \<open>
  The specification's flattener, for comparison with \<open>flattenFrontmatter\<close>: a depth-first
  traversal in the order of the keys that recurses exactly into structured records,
  keeps every other value (arrays included) as a leaf, and names a leaf by its ancestor
  keys and its own key joined with dots.
\<close>

fun dot_join :: "string list \<Rightarrow> string" where
  "dot_join [] = []"
| "dot_join [k] = k"
| "dot_join (k # ks) = k @ ''.'' @ dot_join ks"

function (sequential) flatten_spec :: "string list \<Rightarrow> frontmatter \<Rightarrow> (string \<times> jv) list" where
  "flatten_spec ancestors [] = []"
| "flatten_spec ancestors ((key, JObj es) # rest) =
     flatten_spec (ancestors @ [key]) es @ flatten_spec ancestors rest"
| "flatten_spec ancestors ((key, v) # rest) =
     (dot_join (ancestors @ [key]), v) # flatten_spec ancestors rest"
  by pat_completeness auto
termination
  by (relation "measure (\<lambda>(a, es). size_list (size_prod (\<lambda>_. 0) size) es)") auto

text \<open>No top-level key that holds a nested record is the empty string.\<close>

definition nested_keys_named :: "frontmatter \<Rightarrow> bool" where
  "nested_keys_named obj =
     list_all (\<lambda>e. case snd e of JObj es \<Rightarrow> fst e \<noteq> [] | _ \<Rightarrow> True) obj"

subsection \<open>Field names that \<open>Object.prototype\<close> does not define\<close>

text \<open>
  Every flattened key of the entries, and of the headers of the files, is ignored or is
  not a name that \<open>Object.prototype\<close> defines. \<open>lookups\<close> are the documents whose header a
  run looked up, in order.
\<close>

definition plain_entries :: "PluginSettings \<Rightarrow> (string \<times> jv) list \<Rightarrow> bool" where
  "plain_entries st kvs =
     list_all (\<lambda>kv. fst kv \<in> set (ignoreFields st) \<or> fst kv \<notin> set Object_prototype_names) kvs"

definition plain_files :: "PluginSettings \<Rightarrow> host \<Rightarrow> ref list \<Rightarrow> bool" where
  "plain_files st h fs =
     list_all (\<lambda>f. case getFileCache h f of
                      None \<Rightarrow> True
                    | Some fm \<Rightarrow> plain_entries st (flattenFrontmatter fm [])) fs"

definition lookups :: "effect list \<Rightarrow> ref list" where
  "lookups eff = concat (map (\<lambda>e. case e of Lookup f \<Rightarrow> [f] | Progress q \<Rightarrow> []) eff)"

subsection \<open>Invariants of the index\<close>

text \<open>
  Every record's count is the length of its owning list; no owning list holds two files
  that have the same path in the given host; and both at once for the records of
  \<open>fieldsMap\<close>.
\<close>

definition counted :: "FrontmatterField list \<Rightarrow> bool" where
  "counted c = list_all (\<lambda>r. count r = length (files r)) c"

definition unique_owners :: "host \<Rightarrow> FrontmatterField list \<Rightarrow> bool" where
  "unique_owners h c = list_all (\<lambda>r. distinct (map (\<lambda>f. path (deref h f)) (files r))) c"

definition tallied :: "host \<Rightarrow> (string \<times> FrontmatterField) list \<Rightarrow> bool" where
  "tallied h m =
     list_all (\<lambda>e. count (snd e) = length (files (snd e))
                   \<and> distinct (map (\<lambda>f. path (deref h f)) (files (snd e)))) m"

subsection \<open>Updates that empty the index\<close>

text \<open>
  Every file that the index owns has the path \<open>p\<close>; and the header of a file, if it has
  one, has no key outside the ignore list.
\<close>

definition owns_only :: "host \<Rightarrow> string \<Rightarrow> FrontmatterField list \<Rightarrow> bool" where
  "owns_only h p c = list_all (\<lambda>r. list_all (\<lambda>f. path (deref h f) = p) (files r)) c"

definition declares_nothing :: "host \<Rightarrow> string list \<Rightarrow> ref \<Rightarrow> bool" where
  "declares_nothing h ign file =
     (case getFileCache h file of
        None \<Rightarrow> True
      | Some fm \<Rightarrow> list_all (\<lambda>kv. fst kv \<in> set ign) (flattenFrontmatter fm []))"

text \<open>
  The notifications after which nothing is left of an index, stated on the notification
  and the index before it: the deletion of a markdown document when the index owns no
  file under another path, and a change of such a document when its header declares
  nothing.
\<close>

fun empties :: "host \<Rightarrow> event \<Rightarrow> plugin \<Rightarrow> bool" where
  "empties h (Changed file) p \<longleftrightarrow>
     extension (deref h file) = ''md'' \<and> owns_only h (path (deref h file)) (cache p)
     \<and> declares_nothing h (ignoreFields (settings p)) file"
| "empties h (Deleted (TFile file)) p \<longleftrightarrow>
     extension (deref h file) = ''md'' \<and> owns_only h (path (deref h file)) (cache p)"
| "empties h ev p \<longleftrightarrow> False"

subsection \<open>The index as a map from field names to owners\<close>

text \<open>
  The owning list that the index holds for a field name, and the shape of an index that
  the operations maintain: distinct names, no empty owning list, counts equal to the
  lengths, no two owners with the same path.
\<close>

definition owned :: "FrontmatterField list \<Rightarrow> string \<Rightarrow> ref list" where
  "owned c k = (case find (\<lambda>r. name r = k) c of None \<Rightarrow> [] | Some r \<Rightarrow> files r)"

definition well_kept :: "host \<Rightarrow> FrontmatterField list \<Rightarrow> bool" where
  "well_kept h c \<longleftrightarrow>
     distinct (map name c) \<and>
     list_all (\<lambda>r. files r \<noteq> [] \<and> count r = length (files r)
                   \<and> distinct (map (\<lambda>f. path (deref h f)) (files r))) c"

text \<open>Among the owners, the only file with the path of \<open>file\<close> is \<open>file\<close> itself.\<close>

definition alone :: "host \<Rightarrow> ref \<Rightarrow> FrontmatterField list \<Rightarrow> bool" where
  "alone h file c \<longleftrightarrow>
     (\<forall>k. \<forall>g \<in> set (owned c k). path (deref h g) = path (deref h file) \<longrightarrow> g = file)"

subsection \<open>The collection behind the host\<close>

text \<open>
  The collection as the host holds it: the store of file objects, and the markdown
  documents, each a file object with its parsed header, if it has one. The host looks a
  header up by the path of the file.
\<close>

record vault =
  objects :: "ref \<Rightarrow> tfile"
  documents :: "(ref \<times> frontmatter option) list"

definition host_of :: "vault \<Rightarrow> host" where
  "host_of v =
     \<lparr>deref = objects v,
      getMarkdownFiles = map fst (documents v),
      getFileCache = (\<lambda>f. case find (\<lambda>d. path (objects v (fst d)) = path (objects v f)) (documents v) of
                             None \<Rightarrow> None
                           | Some d \<Rightarrow> snd d)\<rparr>"

text \<open>The markdown documents have distinct paths and the extension \<open>md\<close>.\<close>

definition wf_vault :: "vault \<Rightarrow> bool" where
  "wf_vault v \<longleftrightarrow>
     distinct (map (\<lambda>d. path (objects v (fst d))) (documents v))
     \<and> list_all (\<lambda>d. extension (objects v (fst d)) = ''md'') (documents v)"

text \<open>A header declares a field when the field is not ignored and is one of its flattened keys.\<close>

definition declares :: "string list \<Rightarrow> frontmatter option \<Rightarrow> string \<Rightarrow> bool" where
  "declares ign hdr k \<longleftrightarrow>
     (case hdr of
        None \<Rightarrow> False
      | Some fm \<Rightarrow> k \<notin> set ign \<and> k \<in> fst ` set (flattenFrontmatter fm []))"

definition owners :: "string list \<Rightarrow> vault \<Rightarrow> string \<Rightarrow> ref list" where
  "owners ign v k = map fst (filter (\<lambda>d. declares ign (snd d) k) (documents v))"

text \<open>
  An index represents a collection when it is well kept and, for every field name, owns
  exactly the documents whose header declares the field.
\<close>

definition indexes :: "string list \<Rightarrow> vault \<Rightarrow> FrontmatterField list \<Rightarrow> bool" where
  "indexes ign v c \<longleftrightarrow> well_kept (host_of v) c \<and> (\<forall>k. set (owned c k) = set (owners ign v k))"

text \<open>
  How the collection changes together with a notification. A markdown document is
  created as a new file object under a new path; its header changes; it is deleted; or
  it is renamed to a new markdown path, which changes the path of its object and nothing
  else. Notifications about folders leave the collection as it is, and so do those about
  files of other types, but for the properties of a file object that is no markdown
  document before or after. Two changes are left out: a rename that takes a markdown
  document to another extension, and one that makes a markdown document of another
  file. The handler does not follow them.
\<close>

inductive evolves :: "vault \<Rightarrow> event \<Rightarrow> vault \<Rightarrow> bool" where
  created:
    "f \<notin> fst ` set (documents v) \<Longrightarrow>
     path t \<notin> (\<lambda>d. path (objects v (fst d))) ` set (documents v) \<Longrightarrow> extension t = ''md'' \<Longrightarrow>
     evolves v (Created (TFile f))
       \<lparr>objects = (objects v)(f := t), documents = documents v @ [(f, hdr)]\<rparr>"
| changed:
    "(f, old) \<in> set (documents v) \<Longrightarrow>
     evolves v (Changed f)
       \<lparr>objects = objects v, documents = map (\<lambda>d. if fst d = f then (f, hdr) else d) (documents v)\<rparr>"
| deleted:
    "(f, old) \<in> set (documents v) \<Longrightarrow>
     evolves v (Deleted (TFile f))
       \<lparr>objects = objects v, documents = filter (\<lambda>d. fst d \<noteq> f) (documents v)\<rparr>"
| renamed:
    "(f, hdr) \<in> set (documents v) \<Longrightarrow>
     path t \<notin> (\<lambda>d. path (objects v (fst d))) ` set (documents v) \<Longrightarrow> extension t = ''md'' \<Longrightarrow>
     evolves v (Renamed (TFile f) (path (objects v f)))
       \<lparr>objects = (objects v)(f := t), documents = documents v\<rparr>"
| folder_created: "evolves v (Created (TFolder dir)) v"
| folder_deleted: "evolves v (Deleted (TFolder dir)) v"
| folder_renamed: "evolves v (Renamed (TFolder dir) oldPath) v"
| other_created:
    "f \<notin> fst ` set (documents v) \<Longrightarrow> extension t \<noteq> ''md'' \<Longrightarrow>
     evolves v (Created (TFile f)) \<lparr>objects = (objects v)(f := t), documents = documents v\<rparr>"
| other_changed: "extension (objects v f) \<noteq> ''md'' \<Longrightarrow> evolves v (Changed f) v"
| other_deleted: "extension (objects v f) \<noteq> ''md'' \<Longrightarrow> evolves v (Deleted (TFile f)) v"
| other_renamed:
    "f \<notin> fst ` set (documents v) \<Longrightarrow> extension t \<noteq> ''md'' \<Longrightarrow>
     evolves v (Renamed (TFile f) oldPath) \<lparr>objects = (objects v)(f := t), documents = documents v\<rparr>"

text \<open>
  A record without its value statistics, and what the rebuild does for one document when
  only names, counts and owners are looked at.
\<close>

definition strip :: "FrontmatterField \<Rightarrow> FrontmatterField" where
  "strip r = r\<lparr>valueStats := None\<rparr>"

definition absorb :: "string list \<Rightarrow> host \<Rightarrow> FrontmatterField list \<Rightarrow> ref \<Rightarrow> FrontmatterField list" where
  "absorb ign h c f =
     (case getFileCache h f of
        None \<Rightarrow> c
      | Some fm \<Rightarrow> foldl (addEntry h ign f) c (flattenFrontmatter fm []))"

subsection \<open>Indexes compared, and histories of notifications\<close>

text \<open>
  What is compared between two indexes when order is ignored: the set of their records,
  each as its name, its count and the set of its owners.
\<close>

definition summary :: "FrontmatterField list \<Rightarrow> (string \<times> nat \<times> ref set) set" where
  "summary c = (\<lambda>r. (name r, count r, set (files r))) ` set c"

text \<open>
  A history: a collection and a plugin state, and what notifications make of both, each
  notification delivered with the host showing the collection after the change.
\<close>

inductive history :: "vault \<Rightarrow> plugin \<Rightarrow> vault \<Rightarrow> plugin \<Rightarrow> bool" for v0 p0 where
  start: "history v0 p0 v0 p0"
| step: "history v0 p0 v p \<Longrightarrow> evolves v ev v' \<Longrightarrow>
         history v0 p0 v' (dispatch (host_of v') now ev p)"

text \<open>The scenario's collection, and the same after \<open>B.md\<close> was edited.\<close>

definition scenario_vault :: vault where
  "scenario_vault =
     \<lparr>objects = store [(doc_A, \<lparr>path = ''A.md'', extension = ''md''\<rparr>),
                        (doc_B, \<lparr>path = ''B.md'', extension = ''md''\<rparr>),
                        (doc_C, \<lparr>path = ''C.md'', extension = ''md''\<rparr>)],
      documents =
        [(doc_A, Some [(''tags'', JArr [JStr ''x'', JStr ''y'']), (''author'', JObj [(''name'', JStr ''Bob'')])]),
         (doc_B, Some [(''tags'', JArr [JStr ''z''])]),
         (doc_C, None)]\<rparr>"

definition scenario_vault_edited :: vault where
  "scenario_vault_edited =
     \<lparr>objects = store [(doc_A, \<lparr>path = ''A.md'', extension = ''md''\<rparr>),
                        (doc_B, \<lparr>path = ''B.md'', extension = ''md''\<rparr>),
                        (doc_C, \<lparr>path = ''C.md'', extension = ''md''\<rparr>)],
      documents =
        [(doc_A, Some [(''tags'', JArr [JStr ''x'', JStr ''y'']), (''author'', JObj [(''name'', JStr ''Bob'')])]),
         (doc_B, Some [(''author'', JObj [(''name'', JStr ''Al'')])]),
         (doc_C, None)]\<rparr>"

section \<open>Properties\<close>

subsection \<open>Lists mutated through \<open>find\<close>\<close>

lemma update_first_id: "find P xs = Some r \<Longrightarrow> g r = r \<Longrightarrow> update_first P g xs = xs"
  by (induction xs) (auto split: if_splits)

lemma find_snoc:
  "find P (xs @ [y]) = (case find P xs of Some x \<Rightarrow> Some x | None \<Rightarrow> if P y then Some y else None)"
  by (induction xs) auto

lemma pushFile_name: "name (pushFile h file r) = name r"
  by (simp add: pushFile_def)

lemma pushFile_has: "list_ex (\<lambda>f. path (deref h f) = path (deref h file)) (files (pushFile h file r))"
  by (auto simp: pushFile_def list_ex_iff)

lemma pushFile_keeps:
  "list_ex (\<lambda>f. path (deref h f) = p) (files r) \<Longrightarrow> list_ex (\<lambda>f. path (deref h f) = p) (files (pushFile h file r))"
  by (auto simp: pushFile_def list_ex_iff)

lemma pushFile_id: "list_ex (\<lambda>f. path (deref h f) = path (deref h file)) (files r) \<Longrightarrow> pushFile h file r = r"
  by (simp add: pushFile_def)

lemma find_name_addEntry:
  "find (\<lambda>r. name r = k) (addEntry h ign file c kv) =
     (if fst kv \<in> set ign then find (\<lambda>r. name r = k) c
      else if k = fst kv then
        Some (pushFile h file (case find (\<lambda>r. name r = k) c of
                 None \<Rightarrow> \<lparr>name = k, count = 0, files = [], valueStats = None\<rparr> | Some r \<Rightarrow> r))
      else find (\<lambda>r. name r = k) c)"
proof -
  have upd_same: "find (\<lambda>r. name r = k) (update_first (\<lambda>r. name r = k) (pushFile h file) xs)
        = map_option (pushFile h file) (find (\<lambda>r. name r = k) xs)" for xs
    by (induction xs) (auto simp: pushFile_name)
  have upd_other: "k \<noteq> k' \<Longrightarrow>
      find (\<lambda>r. name r = k) (update_first (\<lambda>r. name r = k') (pushFile h file) xs)
        = find (\<lambda>r. name r = k) xs" for xs k'
    by (induction xs) (auto simp: pushFile_name)
  show ?thesis
    by (auto simp: addEntry_def Let_def upd_same upd_other find_snoc split: option.splits)
qed

subsection \<open>Adding a file twice\<close>

lemma addEntry_settled_id: "settled h ign file c (fst kv) \<Longrightarrow> addEntry h ign file c kv = c"
  by (auto simp: settled_def addEntry_def Let_def update_first_id pushFile_id split: option.splits)

lemma addEntry_settles: "settled h ign file (addEntry h ign file c kv) (fst kv)"
  by (auto simp: settled_def find_name_addEntry pushFile_has split: option.splits)

lemma addEntry_keeps_settled:
  "settled h ign file c k \<Longrightarrow> settled h ign file (addEntry h ign file c kv) k"
  by (auto simp: settled_def find_name_addEntry pushFile_has pushFile_keeps split: option.splits)

lemma foldl_keeps_settled:
  "settled h ign file c k \<Longrightarrow> settled h ign file (foldl (addEntry h ign file) c es) k"
  by (induction es arbitrary: c) (auto simp: addEntry_keeps_settled)

lemma foldl_settles:
  "kv \<in> set es \<Longrightarrow> settled h ign file (foldl (addEntry h ign file) c es) (fst kv)"
proof (induction es arbitrary: c)
  case Nil
  then show ?case by simp
next
  case (Cons e es)
  show ?case
  proof (cases "kv = e")
    case True
    then show ?thesis
      by (simp add: foldl_keeps_settled addEntry_settles)
  next
    case False
    with Cons show ?thesis by simp
  qed
qed

lemma foldl_settled_id:
  "(\<And>kv. kv \<in> set es \<Longrightarrow> settled h ign file c (fst kv)) \<Longrightarrow> foldl (addEntry h ign file) c es = c"
  by (induction es arbitrary: c) (auto simp: addEntry_settled_id)

lemma addFileToCache_twice:
  "cache (addFileToCache h now' file (addFileToCache h now file p))
     = cache (addFileToCache h now file p)"
  by (auto simp: addFileToCache_def foldl_settled_id foldl_settles split: option.splits)

text \<open>
  C7. Calling \<open>updateCacheOnCreate\<close> twice in a row for the same file, with the host
  (and so the document) unchanged, leaves the same index as calling it once: the same
  records in the same order with the same counts and owning lists. This holds from any
  plugin state, for any abstract file and whatever the clock reads at the two calls.
\<close>

theorem C7_create_twice:
  "cache (updateCacheOnCreate h now' af (updateCacheOnCreate h now af p))
     = cache (updateCacheOnCreate h now af p)"
  by (cases af) (auto simp: addFileToCache_twice)

subsection \<open>The ignore list\<close>

lemma set_update_first: "x \<in> set (update_first P g xs) \<Longrightarrow> x \<in> set xs \<or> (\<exists>y \<in> set xs. x = g y)"
  by (induction xs) (auto split: if_splits)

lemma unignored_addEntry: "unignored ign c \<Longrightarrow> unignored ign (addEntry h ign file c kv)"
  by (auto simp: unignored_def addEntry_def Let_def list_all_iff pushFile_name
           dest!: set_update_first split: option.splits)

lemma unignored_foldl: "unignored ign c \<Longrightarrow> unignored ign (foldl (addEntry h ign file) c es)"
  by (induction es arbitrary: c) (auto simp: unignored_addEntry)

lemma unignored_dropPath: "unignored ign c \<Longrightarrow> unignored ign (dropPath h p c)"
  by (auto simp: unignored_def dropPath_def list_all_iff)

lemma settings_addFileToCache: "settings (addFileToCache h now file p) = settings p"
  by (simp add: addFileToCache_def split: option.splits)

lemma unignored_addFileToCache:
  "unignored (ignoreFields (settings p)) (cache p) \<Longrightarrow>
   unignored (ignoreFields (settings p)) (cache (addFileToCache h now file p))"
  by (simp add: addFileToCache_def unignored_foldl split: option.splits)

lemma settings_dispatch: "settings (dispatch h now ev p) = settings p"
proof (cases ev)
  case (Changed f) then show ?thesis by (simp add: updateCacheForFile_def settings_addFileToCache)
next
  case (Deleted af) then show ?thesis by (cases af) simp_all
next
  case (Renamed af old) then show ?thesis by (cases af) simp_all
next
  case (Created af) then show ?thesis by (cases af) (simp_all add: settings_addFileToCache)
qed

lemma unignored_dispatch:
  assumes "unignored (ignoreFields (settings p)) (cache p)"
  shows "unignored (ignoreFields (settings p)) (cache (dispatch h now ev p))"
proof (cases ev)
  case (Changed f)
  have "unignored (ignoreFields (settings p)) (cache (addFileToCache h now f (p\<lparr>cache := dropPath h (path (deref h f)) (cache p)\<rparr>)))"
    using unignored_addFileToCache [of "p\<lparr>cache := dropPath h (path (deref h f)) (cache p)\<rparr>" h now f]
      unignored_dropPath [OF assms] by simp
  with Changed assms show ?thesis by (simp add: updateCacheForFile_def)
next
  case (Deleted af) with assms show ?thesis by (cases af) (simp_all add: unignored_dropPath)
next
  case (Renamed af old) with assms show ?thesis
    by (cases af) (auto simp: unignored_def list_all_iff)
next
  case (Created af) with assms show ?thesis by (cases af) (simp_all add: unignored_addFileToCache)
qed

lemma countFile_name: "name (countFile st h file v r) = name r"
  by (simp add: countFile_def)

lemma set_AList_update: "e \<in> set (AList.update k v m) \<Longrightarrow> e \<in> set m \<or> e = (k, v)"
  by (induction m) (auto split: if_splits)

lemma obj_get_Own: "obj_get m k = Own r \<Longrightarrow> (k, r) \<in> set m"
  by (auto simp: obj_get_def split: option.splits if_splits dest: map_of_SomeD)

lemma keyed_scanEntry:
  "keyed (ignoreFields st) m \<Longrightarrow> scanEntry st h file m kv = Inr m' \<Longrightarrow> keyed (ignoreFields st) m'"
  by (auto simp: keyed_def scanEntry_def Let_def list_all_iff countFile_name newField_def
           split: if_splits property.splits dest!: set_AList_update obj_get_Own)

lemma keyed_scanEntries:
  "keyed (ignoreFields st) m \<Longrightarrow> scanEntries st h file m kvs = Inr m' \<Longrightarrow> keyed (ignoreFields st) m'"
proof (induction kvs arbitrary: m)
  case Nil then show ?case by simp
next
  case (Cons kv kvs)
  then show ?case by (auto split: sum.splits dest: keyed_scanEntry)
qed

lemma keyed_scanFiles:
  "keyed (ignoreFields st) m \<Longrightarrow> scanFiles st h cb tot fs m n = (Inr m', eff)
     \<Longrightarrow> keyed (ignoreFields st) m'"
proof (induction fs arbitrary: m n eff)
  case Nil then show ?case by simp
next
  case (Cons f fs)
  then show ?case
    by (auto split: option.splits sum.splits prod.splits dest: keyed_scanEntries)
qed

lemma set_obj_values: "set (obj_values m) = snd ` set m"
  by (auto simp: obj_values_def)

lemma set_sortByCountDesc: "set (sortByCountDesc cnt xs) = set xs"
  by (simp add: sortByCountDesc_def)

lemma trimTopValues_name: "name (trimTopValues r) = name r"
  by (simp add: trimTopValues_def)

lemma unignored_rebuild:
  assumes "returned (rebuild h cb now p) = Inr c"
  shows "unignored (ignoreFields (settings p)) c"
proof -
  obtain r eff where sf: "scanFiles (settings p) h cb (length (getMarkdownFiles h)) (getMarkdownFiles h) [] 0 = (r, eff)"
    by (cases "scanFiles (settings p) h cb (length (getMarkdownFiles h)) (getMarkdownFiles h) [] 0")
  with assms obtain m where r: "r = Inr m"
    by (cases r) (auto simp: rebuild_def Let_def)
  have "keyed (ignoreFields (settings p)) []" by (simp add: keyed_def)
  then have k: "keyed (ignoreFields (settings p)) m"
    using keyed_scanFiles sf r by blast
  from assms sf r have "c = sortByCountDesc count (obj_values (if analyzeValues (settings p)
                                then map (\<lambda>e. (fst e, trimTopValues (snd e))) m else m))"
    by (auto simp: rebuild_def Let_def)
  with k show ?thesis
    by (auto simp: unignored_def keyed_def list_all_iff set_sortByCountDesc set_obj_values trimTopValues_name)
qed

lemma settings_rebuild: "settings (after (rebuild h cb now p)) = settings p"
  by (auto simp: rebuild_def Let_def split: prod.splits sum.splits)

lemma cache_rebuild:
  "cache (after (rebuild h cb now p)) = (case returned (rebuild h cb now p) of Inl e \<Rightarrow> cache p | Inr c \<Rightarrow> c)"
  by (auto simp: rebuild_def Let_def split: prod.splits sum.splits)

lemma reachable_inv:
  "reachable st p \<Longrightarrow> settings p = st \<and> unignored (ignoreFields st) (cache p)"
proof (induction rule: reachable.induct)
  case start
  then show ?case by (simp add: initial_def unignored_def)
next
  case (read p h cb now now')
  then show ?case
    using unignored_rebuild [of h cb now' p]
    by (auto simp: getFields_def settings_rebuild cache_rebuild split: sum.splits)
next
  case (notify p h now ev)
  then show ?case using unignored_dispatch [of p h now ev] by (simp add: settings_dispatch)
next
  case (clear p)
  then show ?case by (simp add: clearCache_def unignored_def)
qed

text \<open>
  C8. Under a fixed ignore list, in every plugin state reachable from activation through
  reads (cached or rebuilding), the four notification paths and \<open>clearCache\<close>, no record
  that \<open>getFields\<close> returns bears an ignored field name.
\<close>

theorem C8_ignored_never_returned:
  assumes "reachable st p" and "returned (getFields h cb now now' p) = Inr fs"
    and "k \<in> set (ignoreFields st)"
  shows "k \<notin> name ` set fs"
proof -
  from reachable_inv [OF assms(1)] have st: "settings p = st"
    and un: "unignored (ignoreFields st) (cache p)" by simp_all
  have "unignored (ignoreFields st) fs"
  proof (cases "cache p \<noteq> [] \<and> now - lastUpdate p < cacheTTL (settings p) * 1000")
    case True
    with assms(2) un show ?thesis by (simp add: getFields_def)
  next
    case False
    with assms(2) have "returned (rebuild h cb now' p) = Inr fs" by (simp add: getFields_def)
    from unignored_rebuild [OF this] st show ?thesis by simp
  qed
  with assms(3) show ?thesis by (auto simp: unignored_def list_all_iff)
qed

theorem C8_ignored_never_returned_witness:
  "reachable (DEFAULT_SETTINGS\<lparr>ignoreFields := [''tags'']\<rparr>)
     (dispatch scenario 5 (Changed doc_A)
        (after (getFields scenario True 1 2 (initial (DEFAULT_SETTINGS\<lparr>ignoreFields := [''tags'']\<rparr>)))))
   \<and> returned (getFields scenario True 6 7
        (dispatch scenario 5 (Changed doc_A)
           (after (getFields scenario True 1 2 (initial (DEFAULT_SETTINGS\<lparr>ignoreFields := [''tags'']\<rparr>))))))
       = Inr [\<lparr>name = ''author.name'', count = 1, files = [doc_A], valueStats = None\<rparr>]
   \<and> ''tags'' \<in> set (ignoreFields (DEFAULT_SETTINGS\<lparr>ignoreFields := [''tags'']\<rparr>))
   \<and> ''tags'' \<notin> name ` set [\<lparr>name = ''author.name'', count = 1, files = [doc_A], valueStats = None\<rparr>]"
proof -
  let ?st = "DEFAULT_SETTINGS\<lparr>ignoreFields := [''tags'']\<rparr>"
  let ?p = "dispatch scenario 5 (Changed doc_A) (after (getFields scenario True 1 2 (initial ?st)))"
  let ?fs = "[\<lparr>name = ''author.name'', count = 1, files = [doc_A], valueStats = None\<rparr>]"
  have r: "reachable ?st ?p"
    by (intro reachable.notify reachable.read reachable.start)
  have e: "returned (getFields scenario True 6 7 ?p) = Inr ?fs"
    by code_simp
  have k: "''tags'' \<in> set (ignoreFields ?st)"
    by simp
  from C8_ignored_never_returned [OF r e k] r e k show ?thesis
    by blast
qed

subsection \<open>The code at particular inputs\<close>

text \<open>
  C2. The first read of the scenario builds \<open>tags\<close> with the owners \<open>A\<close> and \<open>B\<close>.
  \<open>B.md\<close> is renamed to \<open>B.txt\<close>, \<open>B.txt\<close> is deleted, and \<open>A.md\<close> is renamed to
  \<open>B.txt\<close>. Each of the three handlers returns at its extension test, so the index keeps
  both objects, and the owning list of \<open>tags\<close> now holds the path \<open>B.txt\<close> twice.
\<close>

theorem C2_stale_owner_repeats_path:
  "cache (dispatch A_renamed 5 (Renamed (TFile doc_A) ''A.md'')
            (dispatch B_renamed 4 (Deleted (TFile doc_B))
               (dispatch B_renamed 3 (Renamed (TFile doc_B) ''B.md'') populated)))
     = [\<lparr>name = ''tags'', count = 2, files = [doc_A, doc_B], valueStats = None\<rparr>,
        \<lparr>name = ''author.name'', count = 1, files = [doc_A], valueStats = None\<rparr>]
   \<and> map (\<lambda>f. path (deref A_renamed f)) [doc_A, doc_B] = [''B.txt'', ''B.txt'']
   \<and> \<not> unique_owners A_renamed
         (cache (dispatch A_renamed 5 (Renamed (TFile doc_A) ''A.md'')
                   (dispatch B_renamed 4 (Deleted (TFile doc_B))
                      (dispatch B_renamed 3 (Renamed (TFile doc_B) ''B.md'') populated))))"
  by code_simp

text \<open>
  After the first of these changes alone the index differs from a rebuild: it still
  counts \<open>B\<close>, which is no markdown document any more, under \<open>tags\<close>, where the rebuild
  lists only what \<open>getMarkdownFiles\<close> returns.
\<close>

lemma rename_to_other_type_keeps_owner:
  "cache (dispatch B_renamed 3 (Renamed (TFile doc_B) ''B.md'') populated)
     = [\<lparr>name = ''tags'', count = 2, files = [doc_A, doc_B], valueStats = None\<rparr>,
        \<lparr>name = ''author.name'', count = 1, files = [doc_A], valueStats = None\<rparr>]
   \<and> returned (getFields B_renamed False 4 5 (initial DEFAULT_SETTINGS))
     = Inr [\<lparr>name = ''tags'', count = 1, files = [doc_A], valueStats = None\<rparr>,
            \<lparr>name = ''author.name'', count = 1, files = [doc_A], valueStats = None\<rparr>]"
  by code_simp


text \<open>
  C4. After \<open>B\<close> is edited to declare \<open>author.name\<close> instead of \<open>tags\<close>, the change
  notification leaves \<open>tags\<close> (count 1) before \<open>author.name\<close> (count 2), and the read that
  follows within the TTL returns the records in that order.
\<close>

theorem C4_cached_read_unsorted:
  "returned (getFields scenario_edited False 6 7 (dispatch scenario_edited 5 (Changed doc_B) populated))
     = Inr [\<lparr>name = ''tags'', count = 1, files = [doc_A], valueStats = None\<rparr>,
            \<lparr>name = ''author.name'', count = 2, files = [doc_A, doc_B], valueStats = None\<rparr>]
   \<and> \<not> sorted_wrt (\<lambda>a b. count b \<le> count a)
         [\<lparr>name = ''tags'', count = 1, files = [doc_A], valueStats = None\<rparr>,
          \<lparr>name = ''author.name'', count = 2, files = [doc_A, doc_B], valueStats = None\<rparr>]"
  by code_simp

text \<open>
  C9. With the show-progress flag off and a callback supplied, the rebuild of the scenario
  still calls the callback, with 100, for \<open>C\<close>, the document without a header.
\<close>

theorem C9_progress_not_suppressed:
  "effects (getFields scenario True 1 2 (initial (DEFAULT_SETTINGS\<lparr>showProgress := False\<rparr>)))
     = [Lookup doc_A, Lookup doc_B, Lookup doc_C, Progress 100]"
  by code_simp

text \<open>
  C10. After \<open>clearCache\<close> the cache is empty. With \<open>constructor\<close> as a field name in
  \<open>A\<close>, the read that follows throws while it scans \<open>A\<close>: \<open>B\<close> and \<open>C\<close> are never looked
  up, and the cache stays empty.
\<close>

theorem C10_scan_aborted:
  "getFields scenario_constructor False 10 11 (clearCache populated)
     = \<lparr>returned = Inl TypeError, after = clearCache populated, effects = [Lookup doc_A]\<rparr>"
  by code_simp

subsection \<open>The flattener\<close>

lemma dot_join_snoc: "anc \<noteq> [] \<Longrightarrow> dot_join (anc @ [k]) = dot_join anc @ ''.'' @ k"
  by (induction anc rule: dot_join.induct) auto

lemma dot_join_nonempty: "anc \<noteq> [] \<Longrightarrow> hd anc \<noteq> [] \<Longrightarrow> dot_join anc \<noteq> []"
  by (induction anc rule: dot_join.induct) auto

lemma fullKey_dot_join:
  "anc \<noteq> [] \<Longrightarrow> hd anc \<noteq> [] \<Longrightarrow> fullKey (dot_join anc) k = dot_join (anc @ [k])"
  by (simp add: fullKey_def dot_join_snoc dot_join_nonempty)

text \<open>Below a first ancestor that is not the empty string, code and specification agree.\<close>

lemma flatten_below:
  "anc \<noteq> [] \<Longrightarrow> hd anc \<noteq> [] \<Longrightarrow> flattenFrontmatter es (dot_join anc) = flatten_spec anc es"
  by (induction anc es rule: flatten_spec.induct) (simp_all add: fullKey_dot_join)

text \<open>
  For every header in which no top-level key that holds a nested record is the empty
  string, \<open>flattenFrontmatter\<close> is the specification's flattener: depth-first, recursing
  exactly into the values that are non-null, non-array objects, arrays as leaves, each
  key the dot-joined path of its ancestor keys, pairs in the order in which
  \<open>Object.entries\<close> lists the keys of the source record.
\<close>

theorem flatten_refines_spec:
  "nested_keys_named obj \<Longrightarrow> flattenFrontmatter obj [] = flatten_spec [] obj"
proof (induction obj)
  case Nil
  then show ?case by simp
next
  case (Cons e obj)
  obtain k v where e: "e = (k, v)" by (cases e)
  from Cons have IH: "flattenFrontmatter obj [] = flatten_spec [] obj"
    by (simp add: nested_keys_named_def)
  show ?case
  proof (cases v)
    case (JObj es)
    with Cons.prems e have "k \<noteq> []" by (simp add: nested_keys_named_def)
    then have "flattenFrontmatter es (dot_join [k]) = flatten_spec [k] es"
      by (intro flatten_below) simp_all
    with JObj e IH show ?thesis by (simp add: fullKey_def)
  qed (use e IH in \<open>simp_all add: fullKey_def\<close>)
qed

theorem flatten_refines_spec_example:
  "nested_keys_named
     [(''tags'', JArr [JObj [(''k'', JNull)], JStr ''y'']),
      (''author'', JObj [(''name'', JStr ''Bob''), (''address'', JObj [(''city'', JStr ''Oslo'')])]),
      (''draft'', JBool True)]
   \<and> flattenFrontmatter
     [(''tags'', JArr [JObj [(''k'', JNull)], JStr ''y'']),
      (''author'', JObj [(''name'', JStr ''Bob''), (''address'', JObj [(''city'', JStr ''Oslo'')])]),
      (''draft'', JBool True)] []
     = flatten_spec []
     [(''tags'', JArr [JObj [(''k'', JNull)], JStr ''y'']),
      (''author'', JObj [(''name'', JStr ''Bob''), (''address'', JObj [(''city'', JStr ''Oslo'')])]),
      (''draft'', JBool True)]
   \<and> flatten_spec []
     [(''tags'', JArr [JObj [(''k'', JNull)], JStr ''y'']),
      (''author'', JObj [(''name'', JStr ''Bob''), (''address'', JObj [(''city'', JStr ''Oslo'')])]),
      (''draft'', JBool True)]
     = [(''tags'', JArr [JObj [(''k'', JNull)], JStr ''y'']),
        (''author.name'', JStr ''Bob''),
        (''author.address.city'', JStr ''Oslo''),
        (''draft'', JBool True)]"
proof -
  let ?h = "[(''tags'', JArr [JObj [(''k'', JNull)], JStr ''y'']),
      (''author'', JObj [(''name'', JStr ''Bob''), (''address'', JObj [(''city'', JStr ''Oslo'')])]),
      (''draft'', JBool True)]"
  have n: "nested_keys_named ?h"
    by (simp add: nested_keys_named_def)
  have v: "flatten_spec [] ?h
     = [(''tags'', JArr [JObj [(''k'', JNull)], JStr ''y'']),
        (''author.name'', JStr ''Bob''),
        (''author.address.city'', JStr ''Oslo''),
        (''draft'', JBool True)]"
    by simp
  from flatten_refines_spec [OF n] n v show ?thesis
    by blast
qed

text \<open>
  C6. For the header \<open>{"": {a: 1}}\<close> the code emits the key \<open>a\<close>, where the dot-joined
  path of the ancestor keys, which the specification's flattener gives, is \<open>.a\<close>. The
  prefix of the nested call is the empty string, which \<open>prefix ? ... : key\<close> takes for no
  prefix.
\<close>

theorem C6_empty_key:
  "flattenFrontmatter [([], JObj [(''a'', JNum 1)])] [] = [(''a'', JNum 1)]
   \<and> flatten_spec [] [([], JObj [(''a'', JNum 1)])] = [(''.a'', JNum 1)]
   \<and> flattenFrontmatter [([], JObj [(''a'', JNum 1)])] [] \<noteq> flatten_spec [] [([], JObj [(''a'', JNum 1)])]"
  by code_simp

subsection \<open>The two branches of the read path\<close>

lemma getFields_cached:
  "cache p \<noteq> [] \<Longrightarrow> now - lastUpdate p < cacheTTL (settings p) * 1000 \<Longrightarrow>
   getFields h cb now now' p = \<lparr>returned = Inr (cache p), after = p, effects = []\<rparr>"
  by (simp add: getFields_def)

lemma getFields_expired:
  "\<not> now - lastUpdate p < cacheTTL (settings p) * 1000 \<Longrightarrow>
   getFields h cb now now' p = rebuild h cb now' p"
  by (simp add: getFields_def)

lemma getFields_empty: "cache p = [] \<Longrightarrow> getFields h cb now now' p = rebuild h cb now' p"
  by (simp add: getFields_def)

lemma rebuild_stores:
  "returned (rebuild h cb now p) = Inr c \<Longrightarrow> after (rebuild h cb now p) = p\<lparr>cache := c, lastUpdate := now\<rparr>"
  by (auto simp: rebuild_def Let_def split: prod.splits sum.splits)

lemma rebuild_throws:
  "returned (rebuild h cb now p) = Inl e \<Longrightarrow> after (rebuild h cb now p) = p"
  by (auto simp: rebuild_def Let_def split: prod.splits sum.splits)

subsection \<open>Reads after an incremental update\<close>

lemma lastUpdate_addFileToCache:
  "lastUpdate (addFileToCache h now file p) = lastUpdate p \<or> lastUpdate (addFileToCache h now file p) = now"
  by (simp add: addFileToCache_def split: option.splits)

lemma lastUpdate_dispatch:
  "lastUpdate (dispatch h now ev p) = lastUpdate p \<or> lastUpdate (dispatch h now ev p) = now"
proof (cases ev)
  case (Changed f)
  then show ?thesis
    using lastUpdate_addFileToCache [of h now f "p\<lparr>cache := dropPath h (path (deref h f)) (cache p)\<rparr>"]
    by (simp add: updateCacheForFile_def)
next
  case (Deleted af) then show ?thesis by (cases af) simp_all
next
  case (Renamed af old) then show ?thesis by (cases af) simp_all
next
  case (Created af) then show ?thesis by (cases af) (simp_all add: lastUpdate_addFileToCache)
qed

lemma dropPath_empty: "dropPath h q c = [] \<longleftrightarrow> owns_only h q c"
  by (auto simp: dropPath_def owns_only_def filter_empty_conv list_all_iff)

lemma update_first_Nil: "update_first P g xs = [] \<longleftrightarrow> xs = []"
  by (cases xs) auto

lemma addEntry_empty: "addEntry h ign file c kv = [] \<longleftrightarrow> c = [] \<and> fst kv \<in> set ign"
proof (cases "fst kv \<in> set ign")
  case True
  then show ?thesis by (simp add: addEntry_def Let_def)
next
  case False
  have "(case find (\<lambda>f. name f = fst kv) c of
           None \<Rightarrow> c @ [\<lparr>name = fst kv, count = 0, files = [], valueStats = None\<rparr>]
         | Some _ \<Rightarrow> c) \<noteq> []"
    by (cases c) (auto split: option.splits)
  with False show ?thesis by (simp add: addEntry_def Let_def update_first_Nil)
qed

lemma foldl_addEntry_empty:
  "foldl (addEntry h ign file) c es = [] \<longleftrightarrow> c = [] \<and> list_all (\<lambda>kv. fst kv \<in> set ign) es"
  by (induction es arbitrary: c) (auto simp: addEntry_empty)

lemma addFileToCache_empty:
  "cache (addFileToCache h now file p) = [] \<longleftrightarrow>
     cache p = [] \<and> declares_nothing h (ignoreFields (settings p)) file"
  by (auto simp: addFileToCache_def declares_nothing_def foldl_addEntry_empty split: option.splits)

text \<open>
  A populated index is empty after a notification exactly when the notification is one
  that \<open>empties\<close> describes: renames and creations never empty it.
\<close>

lemma dispatch_empty:
  assumes "cache p \<noteq> []"
  shows "cache (dispatch h now ev p) = [] \<longleftrightarrow> empties h ev p"
proof (cases ev)
  case (Changed f)
  then show ?thesis
    using assms addFileToCache_empty [of h now f "p\<lparr>cache := dropPath h (path (deref h f)) (cache p)\<rparr>"]
    by (simp add: updateCacheForFile_def dropPath_empty)
next
  case (Deleted af) with assms show ?thesis by (cases af) (simp_all add: dropPath_empty)
next
  case (Renamed af old) with assms show ?thesis by (cases af) simp_all
next
  case (Created af) with assms show ?thesis by (cases af) (simp_all add: addFileToCache_empty)
qed

text \<open>
  C5, amended. Take a populated cache that is unexpired at the time \<open>now1\<close> of a read, and
  one of the four notifications handled at an earlier time \<open>now\<close>, no earlier than the
  cache's timestamp. The read serves the index as the handler left it, without a
  rebuild (it looks no document up, whatever the host holds, and leaves the state as it
  is), for every rename and every creation, and for every deletion and change but one
  that \<open>empties\<close> describes: the deletion of a markdown document when the index owns no
  file under another path, or a change of such a document to a header that declares
  nothing. After those the read is the full rebuild.
\<close>

theorem C5_rebuild_only_after_emptying:
  assumes "cache p \<noteq> []" and "lastUpdate p \<le> now" and "now \<le> now1"
    and "now1 - lastUpdate p < cacheTTL (settings p) * 1000"
  shows "getFields h' cb now1 now2 (dispatch h now ev p)
           = (if empties h ev p then rebuild h' cb now2 (dispatch h now ev p)
              else \<lparr>returned = Inr (cache (dispatch h now ev p)), after = dispatch h now ev p,
                    effects = []\<rparr>)"
proof (cases "empties h ev p")
  case True
  with dispatch_empty [OF assms(1), of h now ev] show ?thesis
    by (simp add: getFields_empty)
next
  case False
  with dispatch_empty [OF assms(1), of h now ev] have "cache (dispatch h now ev p) \<noteq> []"
    by simp
  moreover from lastUpdate_dispatch [of h now ev p] assms(2-4)
  have "now1 - lastUpdate (dispatch h now ev p) < cacheTTL (settings (dispatch h now ev p)) * 1000"
    by (auto simp: settings_dispatch)
  ultimately show ?thesis using False by (simp add: getFields_cached)
qed

text \<open>
  C5, as stated, fails. After \<open>A.md\<close> is deleted the cache is populated and unexpired.
  \<open>B.md\<close> is deleted next, which empties the index, and the read that follows at once, well
  within the TTL, scans the collection again.
\<close>

theorem C5_emptied_cache_counterexample:
  "cache (dispatch scenario_C 3 (Deleted (TFile doc_A)) populated) \<noteq> []
   \<and> 5 - lastUpdate (dispatch scenario_C 3 (Deleted (TFile doc_A)) populated)
        < cacheTTL (settings (dispatch scenario_C 3 (Deleted (TFile doc_A)) populated)) * 1000
   \<and> getFields scenario_C False 5 6
        (dispatch scenario_C 4 (Deleted (TFile doc_B)) (dispatch scenario_C 3 (Deleted (TFile doc_A)) populated))
      = \<lparr>returned = Inr [],
         after = \<lparr>settings = DEFAULT_SETTINGS, cache = [], lastUpdate = 6\<rparr>,
         effects = [Lookup doc_C]\<rparr>"
  by code_simp

theorem C5_rebuild_only_after_emptying_witness:
  "cache populated \<noteq> [] \<and> lastUpdate populated \<le> 5 \<and> (5::int) \<le> 6
   \<and> 6 - lastUpdate populated < cacheTTL (settings populated) * 1000
   \<and> \<not> empties scenario_edited (Changed doc_B) populated
   \<and> getFields scenario_edited True 6 7 (dispatch scenario_edited 5 (Changed doc_B) populated)
       = \<lparr>returned = Inr [\<lparr>name = ''tags'', count = 1, files = [doc_A], valueStats = None\<rparr>,
                          \<lparr>name = ''author.name'', count = 2, files = [doc_A, doc_B], valueStats = None\<rparr>],
          after = \<lparr>settings = DEFAULT_SETTINGS,
                   cache = [\<lparr>name = ''tags'', count = 1, files = [doc_A], valueStats = None\<rparr>,
                            \<lparr>name = ''author.name'', count = 2, files = [doc_A, doc_B], valueStats = None\<rparr>],
                   lastUpdate = 5\<rparr>,
          effects = []\<rparr>"
proof -
  let ?p = "dispatch scenario_edited 5 (Changed doc_B) populated"
  have a: "cache populated \<noteq> []" by code_simp
  have b: "lastUpdate populated \<le> 5" by code_simp
  have c: "(5::int) \<le> 6" by simp
  have d: "6 - lastUpdate populated < cacheTTL (settings populated) * 1000" by code_simp
  have e: "\<not> empties scenario_edited (Changed doc_B) populated" by code_simp
  have f: "?p = \<lparr>settings = DEFAULT_SETTINGS,
                 cache = [\<lparr>name = ''tags'', count = 1, files = [doc_A], valueStats = None\<rparr>,
                          \<lparr>name = ''author.name'', count = 2, files = [doc_A, doc_B], valueStats = None\<rparr>],
                 lastUpdate = 5\<rparr>"
    by code_simp
  have "getFields scenario_edited True 6 7 ?p
          = (if empties scenario_edited (Changed doc_B) populated
             then rebuild scenario_edited True 7 ?p
             else \<lparr>returned = Inr (cache ?p), after = ?p, effects = []\<rparr>)"
    by (rule C5_rebuild_only_after_emptying [OF a b c d])
  also have "\<dots> = \<lparr>returned = Inr (cache ?p), after = ?p, effects = []\<rparr>"
    using e by (rule if_not_P)
  finally have g: "getFields scenario_edited True 6 7 ?p
          = \<lparr>returned = Inr [\<lparr>name = ''tags'', count = 1, files = [doc_A], valueStats = None\<rparr>,
                             \<lparr>name = ''author.name'', count = 2, files = [doc_A, doc_B], valueStats = None\<rparr>],
             after = \<lparr>settings = DEFAULT_SETTINGS,
                      cache = [\<lparr>name = ''tags'', count = 1, files = [doc_A], valueStats = None\<rparr>,
                               \<lparr>name = ''author.name'', count = 2, files = [doc_A, doc_B], valueStats = None\<rparr>],
                      lastUpdate = 5\<rparr>,
             effects = []\<rparr>"
    unfolding f by simp
  from a b c d e g show ?thesis by blast
qed

text \<open>
  C1. With value analysis enabled, the first read of the scenario builds the index; \<open>B\<close> is
  then edited to declare \<open>author.name\<close> instead of \<open>tags\<close>, and the change notification
  updates the index. Records, counts and owning lists agree with a rebuild from a cold
  cache over the edited collection, but the value statistics do not: the incremental
  index still counts the array of \<open>B\<close> under \<open>tags\<close> and has not seen the value \<open>Al\<close>.
\<close>

theorem C1_incremental_differs_from_rebuild:
  "cache (dispatch scenario_edited 5 (Changed doc_B)
            (after (getFields scenario False 1 2 (initial (DEFAULT_SETTINGS\<lparr>analyzeValues := True\<rparr>)))))
     = [\<lparr>name = ''tags'', count = 1, files = [doc_A],
          valueStats = Some \<lparr>unique = 0, topValues = [], typeDistribution = [(''array'', 2)]\<rparr>\<rparr>,
        \<lparr>name = ''author.name'', count = 2, files = [doc_A, doc_B],
          valueStats = Some \<lparr>unique = 1, topValues = [(''Bob'', 1)],
                              typeDistribution = [(''string'', 1)]\<rparr>\<rparr>]
   \<and> returned (getFields scenario_edited False 6 7 (initial (DEFAULT_SETTINGS\<lparr>analyzeValues := True\<rparr>)))
     = Inr [\<lparr>name = ''author.name'', count = 2, files = [doc_A, doc_B],
              valueStats = Some \<lparr>unique = 2, topValues = [(''Bob'', 1), (''Al'', 1)],
                                  typeDistribution = [(''string'', 2)]\<rparr>\<rparr>,
            \<lparr>name = ''tags'', count = 1, files = [doc_A],
              valueStats = Some \<lparr>unique = 0, topValues = [], typeDistribution = [(''array'', 1)]\<rparr>\<rparr>]
   \<and> set (cache (dispatch scenario_edited 5 (Changed doc_B)
            (after (getFields scenario False 1 2 (initial (DEFAULT_SETTINGS\<lparr>analyzeValues := True\<rparr>))))))
     \<noteq> set [\<lparr>name = ''author.name'', count = 2, files = [doc_A, doc_B],
              valueStats = Some \<lparr>unique = 2, topValues = [(''Bob'', 1), (''Al'', 1)],
                                  typeDistribution = [(''string'', 2)]\<rparr>\<rparr>,
            \<lparr>name = ''tags'', count = 1, files = [doc_A],
              valueStats = Some \<lparr>unique = 0, topValues = [], typeDistribution = [(''array'', 1)]\<rparr>\<rparr>]"
  by code_simp

subsection \<open>When the rebuild completes\<close>

lemma scanEntry_plain:
  "fst kv \<in> set (ignoreFields st) \<or> fst kv \<notin> set Object_prototype_names \<Longrightarrow>
   \<exists>m'. scanEntry st h file m kv = Inr m'"
  by (auto simp: scanEntry_def Let_def obj_get_def split: property.splits option.splits)

lemma scanEntries_plain:
  "plain_entries st kvs \<Longrightarrow> \<exists>m'. scanEntries st h file m kvs = Inr m'"
proof (induction kvs arbitrary: m)
  case Nil
  then show ?case by simp
next
  case (Cons kv kvs)
  from Cons.prems obtain m1 where "scanEntry st h file m kv = Inr m1"
    using scanEntry_plain by (fastforce simp: plain_entries_def)
  moreover from Cons obtain m2 where "scanEntries st h file m1 kvs = Inr m2"
    by (auto simp: plain_entries_def)
  ultimately show ?case by simp
qed

lemma lookups_simps [simp]:
  "lookups [] = []"
  "lookups (Lookup f # eff) = f # lookups eff"
  "lookups (Progress q # eff) = lookups eff"
  "lookups (xs @ ys) = lookups xs @ lookups ys"
  by (simp_all add: lookups_def)

lemma scanFiles_plain:
  "plain_files st h fs \<Longrightarrow>
   \<exists>m' eff. scanFiles st h cb tot fs m n = (Inr m', eff) \<and> lookups eff = fs"
proof (induction fs arbitrary: m n)
  case Nil
  then show ?case by simp
next
  case (Cons f fs)
  from Cons.prems have rest: "plain_files st h fs" by (simp add: plain_files_def)
  show ?case
  proof (cases "getFileCache h f")
    case None
    from Cons.IH [OF rest, of m "n + 1"] None show ?thesis by auto
  next
    case (Some fm)
    with Cons.prems have "plain_entries st (flattenFrontmatter fm [])"
      by (simp add: plain_files_def)
    then obtain m1 where m1: "scanEntries st h f m (flattenFrontmatter fm []) = Inr m1"
      using scanEntries_plain by blast
    from Cons.IH [OF rest, of m1 "n + 1"] Some m1 show ?thesis by auto
  qed
qed

lemma rebuild_completes:
  assumes "plain_files (settings p) h (getMarkdownFiles h)"
  shows "\<exists>c. rebuild h cb now p = \<lparr>returned = Inr c, after = p\<lparr>cache := c, lastUpdate := now\<rparr>,
                                   effects = effects (rebuild h cb now p)\<rparr>
             \<and> lookups (effects (rebuild h cb now p)) = getMarkdownFiles h"
proof -
  from scanFiles_plain [OF assms, of cb "length (getMarkdownFiles h)" "[]" 0]
  obtain m eff where "scanFiles (settings p) h cb (length (getMarkdownFiles h)) (getMarkdownFiles h) [] 0 = (Inr m, eff)"
    and "lookups eff = getMarkdownFiles h" by blast
  then show ?thesis by (simp add: rebuild_def Let_def)
qed

text \<open>
  A read that does not serve the cache, over a collection none of whose field names
  \<open>Object.prototype\<close> defines: it completes, looks every markdown document up once, in
  order, and stores what it returns together with the time.
\<close>

lemma getFields_rebuilds:
  assumes "cache p = [] \<or> \<not> now - lastUpdate p < cacheTTL (settings p) * 1000"
    and "plain_files (settings p) h (getMarkdownFiles h)"
  shows "\<exists>c. returned (getFields h cb now now' p) = Inr c
             \<and> after (getFields h cb now now' p) = p\<lparr>cache := c, lastUpdate := now'\<rparr>
             \<and> lookups (effects (getFields h cb now now' p)) = getMarkdownFiles h"
proof -
  from assms(1) have g: "getFields h cb now now' p = rebuild h cb now' p"
    by (auto simp: getFields_def)
  from rebuild_completes [OF assms(2), of cb now'] obtain c where
    c: "rebuild h cb now' p
          = \<lparr>returned = Inr c, after = p\<lparr>cache := c, lastUpdate := now'\<rparr>,
             effects = effects (rebuild h cb now' p)\<rparr>"
    and l: "lookups (effects (rebuild h cb now' p)) = getMarkdownFiles h"
    by blast
  from c have "returned (rebuild h cb now' p) = Inr c"
    and "after (rebuild h cb now' p) = p\<lparr>cache := c, lastUpdate := now'\<rparr>"
    by (metis run.select_convs(1), metis run.select_convs(2))
  with g l show ?thesis by simp
qed

subsection \<open>Progress values\<close>

lemma percent_bounds: "0 < n \<Longrightarrow> k \<le> n \<Longrightarrow> 0 \<le> percent k n \<and> percent k n \<le> 100"
  by (simp add: percent_def divide_le_eq)

lemma scanFiles_progress:
  "scanFiles st h cb tot fs m n = (r, eff) \<Longrightarrow> Progress q \<in> set eff \<Longrightarrow> n + length fs \<le> tot \<Longrightarrow>
   0 \<le> q \<and> q \<le> 100"
proof (induction fs arbitrary: m n r eff)
  case Nil
  then show ?case by simp
next
  case (Cons f fs)
  from Cons.prems(3) have le: "Suc n \<le> tot" "Suc n + length fs \<le> tot" "0 < tot" by simp_all
  from Cons.prems(1,2) consider
      (here) "q = percent (Suc n) tot"
    | (later) m' r' eff' where "scanFiles st h cb tot fs m' (Suc n) = (r', eff')" "Progress q \<in> set eff'"
    by (auto split: option.splits sum.splits prod.splits if_splits)
  then show ?case
  proof cases
    case here
    with le show ?thesis using percent_bounds [of tot "Suc n"] by simp
  next
    case later
    with Cons.IH le show ?thesis by blast
  qed
qed

lemma getFields_progress:
  assumes "Progress q \<in> set (effects (getFields h cb now now' p))"
  shows "0 \<le> q \<and> q \<le> 100"
proof -
  let ?fs = "getMarkdownFiles h"
  obtain r eff where sf: "scanFiles (settings p) h cb (length ?fs) ?fs [] 0 = (r, eff)"
    by (cases "scanFiles (settings p) h cb (length ?fs) ?fs [] 0")
  then have "effects (getFields h cb now now' p) = [] \<or> effects (getFields h cb now now' p) = eff"
    by (auto simp: getFields_def rebuild_def Let_def split: sum.splits)
  with assms have "Progress q \<in> set eff" by auto
  with sf show ?thesis using scanFiles_progress by fastforce
qed

lemma scanFiles_no_callback:
  "scanFiles st h False tot fs m n = (r, eff) \<Longrightarrow> Progress q \<notin> set eff"
  by (induction fs arbitrary: m n r eff) (auto split: option.splits sum.splits prod.splits)

subsection \<open>Counts and owning lists\<close>

lemma list_all_update_first:
  "list_all Q xs \<Longrightarrow> (\<And>x. Q x \<Longrightarrow> Q (g x)) \<Longrightarrow> list_all Q (update_first P g xs)"
  by (induction xs) auto

lemma pushFile_counted: "count r = length (files r) \<Longrightarrow> count (pushFile h file r) = length (files (pushFile h file r))"
  by (simp add: pushFile_def)

lemma pushFile_unique:
  "distinct (map (\<lambda>f. path (deref h f)) (files r)) \<Longrightarrow> distinct (map (\<lambda>f. path (deref h f)) (files (pushFile h file r)))"
  by (auto simp: pushFile_def list_ex_iff)

lemma counted_dropPath: "counted (dropPath h p c)"
  by (auto simp: counted_def dropPath_def list_all_iff)

lemma unique_owners_dropPath: "unique_owners h c \<Longrightarrow> unique_owners h (dropPath h p c)"
  by (auto simp: unique_owners_def dropPath_def list_all_iff distinct_map_filter)

lemma counted_addEntry: "counted c \<Longrightarrow> counted (addEntry h ign file c kv)"
  unfolding counted_def addEntry_def Let_def
  by (auto intro!: list_all_update_first pushFile_counted split: option.splits)

lemma unique_owners_addEntry: "unique_owners h c \<Longrightarrow> unique_owners h (addEntry h ign file c kv)"
  unfolding unique_owners_def addEntry_def Let_def
  by (auto intro!: list_all_update_first pushFile_unique split: option.splits)

lemma counted_addFileToCache: "counted (cache p) \<Longrightarrow> counted (cache (addFileToCache h now file p))"
proof -
  have "counted c \<Longrightarrow> counted (foldl (addEntry h ign file) c es)" for c ign es
    by (induction es arbitrary: c) (simp_all add: counted_addEntry)
  then show "counted (cache p) \<Longrightarrow> counted (cache (addFileToCache h now file p))"
    by (simp add: addFileToCache_def split: option.splits)
qed

lemma unique_owners_addFileToCache:
  "unique_owners h (cache p) \<Longrightarrow> unique_owners h (cache (addFileToCache h now file p))"
proof -
  have "unique_owners h c \<Longrightarrow> unique_owners h (foldl (addEntry h ign file) c es)" for c ign es
    by (induction es arbitrary: c) (simp_all add: unique_owners_addEntry)
  then show "unique_owners h (cache p) \<Longrightarrow> unique_owners h (cache (addFileToCache h now file p))"
    by (simp add: addFileToCache_def split: option.splits)
qed

lemma counted_dispatch:
  assumes "counted (cache p)"
  shows "counted (cache (dispatch h now ev p))"
proof (cases ev)
  case (Changed f)
  have "counted (cache (p\<lparr>cache := dropPath h (path (deref h f)) (cache p)\<rparr>))" by (simp add: counted_dropPath)
  from counted_addFileToCache [OF this] Changed assms show ?thesis
    by (simp add: updateCacheForFile_def)
next
  case (Deleted af) with assms show ?thesis by (cases af) (simp_all add: counted_dropPath)
next
  case (Renamed af old) with assms show ?thesis
    by (cases af) (auto simp: counted_def list_all_iff)
next
  case (Created af) with assms show ?thesis by (cases af) (simp_all add: counted_addFileToCache)
qed

text \<open>
  With the host as the handler finds it, every path but the rename keeps the owning
  lists free of repeated paths.
\<close>

lemma unique_owners_dispatch:
  assumes "unique_owners h (cache p)" and "\<And>af old. ev \<noteq> Renamed af old"
  shows "unique_owners h (cache (dispatch h now ev p))"
proof (cases ev)
  case (Changed f)
  have "unique_owners h (cache (p\<lparr>cache := dropPath h (path (deref h f)) (cache p)\<rparr>))"
    using assms(1) by (simp add: unique_owners_dropPath)
  from unique_owners_addFileToCache [OF this] Changed assms show ?thesis
    by (simp add: updateCacheForFile_def)
next
  case (Deleted af) with assms show ?thesis by (cases af) (simp_all add: unique_owners_dropPath)
next
  case (Renamed af old) with assms(2) show ?thesis by blast
next
  case (Created af) with assms show ?thesis by (cases af) (simp_all add: unique_owners_addFileToCache)
qed

text \<open>
  The rename handler replaces the owners that have the old path. The renamed object has
  its new path by then, so unless the index holds another file under the old path the
  handler changes nothing.
\<close>

lemma rename_changes_nothing:
  assumes "list_all (\<lambda>r. list_all (\<lambda>f. path (deref h f) \<noteq> oldPath) (files r)) (cache p)"
  shows "updateCacheOnRename h af oldPath p = p"
proof (cases af)
  case (TFile g)
  have "map (\<lambda>field. field\<lparr>files := map (\<lambda>f. if path (deref h f) = oldPath then g else f) (files field)\<rparr>)
          (cache p) = cache p"
  proof (intro map_idI)
    fix r assume "r \<in> set (cache p)"
    with assms have "map (\<lambda>f. if path (deref h f) = oldPath then g else f) (files r) = files r"
      by (intro map_idI) (auto simp: list_all_iff)
    then show "r\<lparr>files := map (\<lambda>f. if path (deref h f) = oldPath then g else f) (files r)\<rparr> = r"
      by simp
  qed
  with TFile show ?thesis by simp
qed simp

lemma countFile_tallied:
  "count r = length (files r) \<and> distinct (map (\<lambda>f. path (deref h f)) (files r)) \<Longrightarrow>
   count (countFile st h file v r) = length (files (countFile st h file v r))
   \<and> distinct (map (\<lambda>f. path (deref h f)) (files (countFile st h file v r)))"
  by (auto simp: countFile_def list_ex_iff)

lemma tallied_scanEntry: "tallied h m \<Longrightarrow> scanEntry st h file m kv = Inr m' \<Longrightarrow> tallied h m'"
  unfolding tallied_def scanEntry_def Let_def list_all_iff
  by (auto split: if_splits property.splits dest!: set_AList_update obj_get_Own
        simp: countFile_tallied newField_def)

lemma tallied_scanEntries: "tallied h m \<Longrightarrow> scanEntries st h file m kvs = Inr m' \<Longrightarrow> tallied h m'"
  by (induction kvs arbitrary: m) (auto split: sum.splits dest: tallied_scanEntry)

lemma tallied_scanFiles:
  "tallied h m \<Longrightarrow> scanFiles st h cb tot fs m n = (Inr m', eff) \<Longrightarrow> tallied h m'"
  by (induction fs arbitrary: m n eff)
     (auto split: option.splits sum.splits prod.splits dest: tallied_scanEntries)

lemma rebuild_cases:
  assumes "returned (rebuild h cb now p) = Inr c"
  obtains m eff where
    "scanFiles (settings p) h cb (length (getMarkdownFiles h)) (getMarkdownFiles h) [] 0 = (Inr m, eff)"
    "c = sortByCountDesc count (obj_values
           (if analyzeValues (settings p) then map (\<lambda>e. (fst e, trimTopValues (snd e))) m else m))"
proof -
  obtain r eff where sf: "scanFiles (settings p) h cb (length (getMarkdownFiles h)) (getMarkdownFiles h) [] 0 = (r, eff)"
    by (cases "scanFiles (settings p) h cb (length (getMarkdownFiles h)) (getMarkdownFiles h) [] 0")
  with assms obtain m where "r = Inr m" by (cases r) (auto simp: rebuild_def Let_def)
  with sf assms that show thesis by (auto simp: rebuild_def Let_def)
qed

lemma rebuild_counted_unique:
  assumes "returned (rebuild h cb now p) = Inr c"
  shows "counted c \<and> unique_owners h c"
proof -
  from assms obtain m eff where
    sf: "scanFiles (settings p) h cb (length (getMarkdownFiles h)) (getMarkdownFiles h) [] 0 = (Inr m, eff)"
    and c: "c = sortByCountDesc count (obj_values
           (if analyzeValues (settings p) then map (\<lambda>e. (fst e, trimTopValues (snd e))) m else m))"
    by (rule rebuild_cases)
  have "tallied h []" by (simp add: tallied_def)
  from tallied_scanFiles [OF this sf] have "tallied h m" .
  with c show ?thesis
    by (auto simp: counted_def unique_owners_def tallied_def list_all_iff set_sortByCountDesc
          set_obj_values trimTopValues_def)
qed

lemma reachable_counted: "reachable st p \<Longrightarrow> counted (cache p)"
proof (induction rule: reachable.induct)
  case start
  then show ?case by (simp add: initial_def counted_def)
next
  case (read p h cb now now')
  then show ?case
    using rebuild_counted_unique [of h cb now' p]
    by (auto simp: getFields_def cache_rebuild split: sum.splits)
next
  case (notify p h now ev)
  then show ?case by (simp add: counted_dispatch)
next
  case (clear p)
  then show ?case by (simp add: clearCache_def counted_def)
qed

subsection \<open>The order of a rebuilt index\<close>

lemma rebuild_sorted:
  assumes "returned (rebuild h cb now p) = Inr c"
  shows "sorted_wrt (\<lambda>a b. count b \<le> count a) c"
proof -
  from assms obtain m eff where
    c: "c = sortByCountDesc count (obj_values
           (if analyzeValues (settings p) then map (\<lambda>e. (fst e, trimTopValues (snd e))) m else m))"
    by (rule rebuild_cases)
  have "sorted (map (\<lambda>x. - int (count x)) (sortByCountDesc count xs))" for xs :: "FrontmatterField list"
    by (simp add: sortByCountDesc_def)
  then have "sorted_wrt (\<lambda>a b. count b \<le> count a) (sortByCountDesc count xs)" for xs :: "FrontmatterField list"
    by (simp add: sorted_map sorted_wrt_iff_nth_less)
  with c show ?thesis by simp
qed

lemma sortByCountDesc_stable:
  "filter (\<lambda>x. cnt x = k) (sortByCountDesc cnt xs) = filter (\<lambda>x. cnt x = k) xs"
proof -
  have "filter (\<lambda>x. - int (cnt x) = - int k) (sort_key (\<lambda>x. - int (cnt x)) xs)
        = filter (\<lambda>x. - int (cnt x) = - int k) xs"
    by (rule sort_key_stable)
  then show ?thesis by (simp add: sortByCountDesc_def)
qed

subsection \<open>Owners under the cache operations\<close>

lemma find_name_iff:
  "distinct (map name c) \<Longrightarrow> find (\<lambda>r. name r = k) c = Some r \<longleftrightarrow> r \<in> set c \<and> name r = k"
  by (induction c) auto

lemma find_name_None: "find (\<lambda>r. name r = k) c = None \<longleftrightarrow> k \<notin> name ` set c"
  by (auto simp: find_None_iff)

lemma map_name_update_first:
  "(\<And>x. name (g x) = name x) \<Longrightarrow> map name (update_first P g xs) = map name xs"
  by (induction xs) auto

lemma find_SomeE: "find P xs = Some x \<Longrightarrow> x \<in> set xs \<and> P x"
  by (induction xs) (auto split: if_splits)

lemma update_first_snoc:
  "find P xs = None \<Longrightarrow> update_first P g (xs @ [y]) = xs @ [if P y then g y else y]"
  by (induction xs) (auto split: if_splits)

lemma addEntry_new:
  "fst kv \<notin> set ign \<Longrightarrow> find (\<lambda>r. name r = fst kv) c = None \<Longrightarrow>
   addEntry h ign file c kv = c @ [\<lparr>name = fst kv, count = 1, files = [file], valueStats = None\<rparr>]"
  by (simp add: addEntry_def Let_def update_first_snoc pushFile_def)

lemma addEntry_old:
  "fst kv \<notin> set ign \<Longrightarrow> find (\<lambda>r. name r = fst kv) c = Some r \<Longrightarrow>
   addEntry h ign file c kv = update_first (\<lambda>r. name r = fst kv) (pushFile h file) c"
  by (simp add: addEntry_def Let_def)

lemma addEntry_ignored: "fst kv \<in> set ign \<Longrightarrow> addEntry h ign file c kv = c"
  by (simp add: addEntry_def Let_def)

lemma map_name_addEntry:
  "map name (addEntry h ign file c kv) =
     (if fst kv \<in> set ign \<or> fst kv \<in> name ` set c then map name c else map name c @ [fst kv])"
proof (cases "fst kv \<in> set ign")
  case True
  then show ?thesis by (simp add: addEntry_ignored)
next
  case False
  show ?thesis
  proof (cases "find (\<lambda>r. name r = fst kv) c")
    case None
    with False show ?thesis by (simp add: addEntry_new find_name_None)
  next
    case (Some r)
    from find_SomeE [OF Some] have "fst kv \<in> name ` set c" by force
    with False Some show ?thesis
      by (simp add: addEntry_old map_name_update_first pushFile_name)
  qed
qed

lemma owned_addEntry:
  "owned (addEntry h ign file c kv) k =
     (if fst kv \<notin> set ign \<and> k = fst kv \<and> \<not> list_ex (\<lambda>f. path (deref h f) = path (deref h file)) (owned c k)
      then owned c k @ [file] else owned c k)"
  by (auto simp: owned_def find_name_addEntry pushFile_def split: option.splits)

lemma pushFile_kept:
  "files r \<noteq> [] \<and> count r = length (files r) \<and> distinct (map (\<lambda>f. path (deref h f)) (files r)) \<Longrightarrow>
   files (pushFile h file r) \<noteq> [] \<and> count (pushFile h file r) = length (files (pushFile h file r))
   \<and> distinct (map (\<lambda>f. path (deref h f)) (files (pushFile h file r)))"
  by (auto simp: pushFile_def list_ex_iff)

lemma well_kept_addEntry:
  assumes "well_kept h c"
  shows "well_kept h (addEntry h ign file c kv)"
proof -
  have d: "distinct (map name (addEntry h ign file c kv))"
    using assms by (auto simp: well_kept_def map_name_addEntry)
  let ?Q = "\<lambda>r. files r \<noteq> [] \<and> count r = length (files r) \<and> distinct (map (\<lambda>f. path (deref h f)) (files r))"
  from assms have all: "list_all ?Q c" by (simp add: well_kept_def)
  have "list_all ?Q (addEntry h ign file c kv)"
  proof (cases "fst kv \<in> set ign")
    case True
    with all show ?thesis by (simp add: addEntry_ignored)
  next
    case False
    show ?thesis
    proof (cases "find (\<lambda>r. name r = fst kv) c")
      case None
      with False all show ?thesis by (simp add: addEntry_new)
    next
      case (Some r)
      with False have "addEntry h ign file c kv = update_first (\<lambda>r. name r = fst kv) (pushFile h file) c"
        by (rule addEntry_old)
      with all show ?thesis
        by (simp add: list_all_update_first pushFile_kept)
    qed
  qed
  with d show ?thesis by (simp add: well_kept_def)
qed

lemma well_kept_foldl: "well_kept h c \<Longrightarrow> well_kept h (foldl (addEntry h ign file) c es)"
  by (induction es arbitrary: c) (simp_all add: well_kept_addEntry)

lemma alone_addEntry: "alone h file c \<Longrightarrow> alone h file (addEntry h ign file c kv)"
  by (auto simp: alone_def owned_addEntry)

lemma set_owned_addEntry:
  "alone h file c \<Longrightarrow>
   set (owned (addEntry h ign file c kv) k) =
     set (owned c k) \<union> (if fst kv \<notin> set ign \<and> k = fst kv then {file} else {})"
  by (auto simp: owned_addEntry alone_def list_ex_iff)

lemma set_owned_foldl:
  "alone h file c \<Longrightarrow>
   set (owned (foldl (addEntry h ign file) c es) k) =
     set (owned c k) \<union> (if k \<in> fst ` set es \<and> k \<notin> set ign then {file} else {})"
proof (induction es arbitrary: c)
  case Nil
  then show ?case by simp
next
  case (Cons e es)
  from Cons.prems have "alone h file (addEntry h ign file c e)" by (rule alone_addEntry)
  from Cons.IH [OF this] Cons.prems show ?case
    by (auto simp: set_owned_addEntry)
qed

lemma find_filter_map_distinct:
  fixes c :: "FrontmatterField list" and g :: "FrontmatterField \<Rightarrow> FrontmatterField"
  assumes "distinct (map name c)" and "\<And>r. name (g r) = name r"
  shows "find (\<lambda>r. name r = k) (filter Q (map g c)) =
           (case find (\<lambda>r. name r = k) c of
              None \<Rightarrow> None
            | Some r \<Rightarrow> if Q (g r) then Some (g r) else None)"
  using assms
proof (induction c)
  case Nil
  then show ?case by simp
next
  case (Cons a c)
  then have "name a \<notin> name ` set c" by simp
  have "find (\<lambda>r. name r = name a) (filter Q (map g c)) = None"
  proof (rule ccontr)
    assume "find (\<lambda>r. name r = name a) (filter Q (map g c)) \<noteq> None"
    then obtain x where "find (\<lambda>r. name r = name a) (filter Q (map g c)) = Some x" by auto
    from find_SomeE [OF this] obtain y where y: "y \<in> set c" and "name (g y) = name a" by auto
    with Cons.prems(2) [of y] have "name y = name a" by simp
    with y have "name a \<in> name ` set c" by (metis imageI)
    with \<open>name a \<notin> name ` set c\<close> show False by simp
  qed
  with Cons show ?case by (auto split: option.splits)
qed

lemma owned_dropPath:
  "distinct (map name c) \<Longrightarrow> owned (dropPath h p c) k = filter (\<lambda>f. path (deref h f) \<noteq> p) (owned c k)"
  unfolding owned_def dropPath_def
  by (subst find_filter_map_distinct) (auto split: option.splits)

lemma well_kept_dropPath:
  assumes "well_kept h c"
  shows "well_kept h (dropPath h p c)"
proof -
  let ?g = "\<lambda>field. field\<lparr>files := filter (\<lambda>f. path (deref h f) \<noteq> p) (files field),
                          count := length (filter (\<lambda>f. path (deref h f) \<noteq> p) (files field))\<rparr>"
  from assms have "distinct (map name (map ?g c))" by (simp add: well_kept_def comp_def)
  then have "distinct (map name (filter (\<lambda>field. count field > 0) (map ?g c)))"
    by (rule distinct_map_filter)
  moreover from assms have "list_all (\<lambda>r. files r \<noteq> [] \<and> count r = length (files r)
        \<and> distinct (map (\<lambda>f. path (deref h f)) (files r))) (filter (\<lambda>field. count field > 0) (map ?g c))"
    by (auto simp: well_kept_def list_all_iff distinct_map_filter)
  ultimately show ?thesis by (simp add: well_kept_def dropPath_def)
qed

subsection \<open>An index that represents a collection\<close>

lemma deref_host_of [simp]: "deref (host_of v) = objects v"
  by (simp add: host_of_def)

lemma getMarkdownFiles_host_of [simp]: "getMarkdownFiles (host_of v) = map fst (documents v)"
  by (simp add: host_of_def)

text \<open>The cache operations read a host only through its file objects.\<close>

lemma well_kept_cong: "deref h = deref h' \<Longrightarrow> well_kept h c = well_kept h' c"
  by (simp add: well_kept_def)

lemma dropPath_cong: "deref h = deref h' \<Longrightarrow> dropPath h q c = dropPath h' q c"
  by (simp add: dropPath_def)

lemma set_owners:
  "g \<in> set (owners ign v k) \<longleftrightarrow> (\<exists>hdr. (g, hdr) \<in> set (documents v) \<and> declares ign hdr k)"
  by (force simp: owners_def)

lemma vault_entry_unique:
  assumes "wf_vault v" and "(f, h1) \<in> set (documents v)" and "(f', h2) \<in> set (documents v)"
    and "path (objects v f) = path (objects v f')"
  shows "f = f' \<and> h1 = h2"
proof -
  from assms(1) have "inj_on (\<lambda>d. path (objects v (fst d))) (set (documents v))"
    by (simp add: wf_vault_def distinct_map)
  from inj_onD [OF this, of "(f, h1)" "(f', h2)"] assms show ?thesis by simp
qed

lemma host_lookup:
  assumes "wf_vault v" and "(f, hdr) \<in> set (documents v)"
  shows "getFileCache (host_of v) f = hdr"
proof -
  let ?P = "\<lambda>d. path (objects v (fst d)) = path (objects v f)"
  from assms(2) have "find ?P (documents v) \<noteq> None"
    by (auto simp: find_None_iff)
  then obtain d where d: "find ?P (documents v) = Some d" by auto
  from find_SomeE [OF d] have "d \<in> set (documents v)" "path (objects v (fst d)) = path (objects v f)"
    by simp_all
  with vault_entry_unique [OF assms(1), of "fst d" "snd d" f hdr] assms(2)
  have "snd d = hdr" by simp
  with d show ?thesis by (simp add: host_of_def)
qed

lemma owned_in_vault:
  "indexes ign v c \<Longrightarrow> g \<in> set (owned c k) \<Longrightarrow> g \<in> fst ` set (documents v)"
  by (force simp: indexes_def set_owners)

lemma files_owned:
  "well_kept h c \<Longrightarrow> r \<in> set c \<Longrightarrow> owned c (name r) = files r"
  using find_name_iff [of c "name r" r] by (simp add: well_kept_def owned_def)

lemma files_in_vault:
  assumes "indexes ign v c" and "r \<in> set c" and "x \<in> set (files r)"
  shows "x \<in> fst ` set (documents v)"
proof -
  from assms(1) have "well_kept (host_of v) c" by (simp add: indexes_def)
  from files_owned [OF this assms(2)] assms(3) have "x \<in> set (owned c (name r))" by simp
  with assms(1) show ?thesis by (rule owned_in_vault)
qed

lemma path_in_vault:
  assumes "wf_vault v" and "(f, old) \<in> set (documents v)" and "g \<in> fst ` set (documents v)"
  shows "path (objects v g) = path (objects v f) \<longleftrightarrow> g = f"
proof
  assume "path (objects v g) = path (objects v f)"
  moreover from assms(3) obtain hg where "(g, hg) \<in> set (documents v)" by force
  ultimately show "g = f" using vault_entry_unique [OF assms(1) _ assms(2)] by blast
qed simp

lemma alone_fresh:
  assumes "indexes ign v c" and "deref h = objects v"
    and "path (objects v f) \<notin> (\<lambda>d. path (objects v (fst d))) ` set (documents v)"
  shows "alone h f c"
  unfolding alone_def
proof (intro allI ballI impI)
  fix k g
  assume "g \<in> set (owned c k)" and p: "path (deref h g) = path (deref h f)"
  with assms(1) have "g \<in> fst ` set (documents v)" by (auto dest: owned_in_vault)
  then have "path (objects v g) \<in> (\<lambda>d. path (objects v (fst d))) ` set (documents v)" by force
  with assms(2,3) p show "g = f" by simp
qed

text \<open>Adding the entries of a header for a file that the index does not own yet.\<close>

lemma indexes_add:
  assumes "well_kept h c" and "alone h f c" and "deref h = objects v'"
    and "\<And>k. set (owned c k) \<union> (if declares ign (Some fm) k then {f} else {}) = set (owners ign v' k)"
  shows "indexes ign v' (foldl (addEntry h ign f) c (flattenFrontmatter fm []))"
proof -
  have "set (owned (foldl (addEntry h ign f) c (flattenFrontmatter fm [])) k) = set (owners ign v' k)" for k
    using set_owned_foldl [OF assms(2), of ign "flattenFrontmatter fm []" k] assms(4) [of k]
    by (auto simp: declares_def split: if_splits)
  moreover from well_kept_foldl [OF assms(1)] assms(3)
  have "well_kept (host_of v') (foldl (addEntry h ign f) c (flattenFrontmatter fm []))"
    by (simp add: well_kept_cong [of h "host_of v'"])
  ultimately show ?thesis by (simp add: indexes_def)
qed

text \<open>The objects outside the collection do not matter.\<close>

lemma paths_frame:
  assumes "\<forall>g \<in> fst ` set docs. objs' g = objs g"
  shows "map (\<lambda>d. path (objs' (fst d))) docs = map (\<lambda>d. path (objs (fst d))) docs"
  using assms by (intro map_cong refl) simp

lemma wf_vault_frame:
  assumes "wf_vault v" and "documents v' = documents v"
    and "\<forall>g \<in> fst ` set (documents v). objects v' g = objects v g"
  shows "wf_vault v'"
proof -
  have p: "map (\<lambda>d. path (objects v' (fst d))) (documents v) = map (\<lambda>d. path (objects v (fst d))) (documents v)"
    by (rule paths_frame [OF assms(3)])
  from assms(3) have e: "list_all (\<lambda>d. extension (objects v' (fst d)) = ''md'') (documents v)
      \<longleftrightarrow> list_all (\<lambda>d. extension (objects v (fst d)) = ''md'') (documents v)"
    by (auto simp: list_all_iff)
  from assms(1) show ?thesis unfolding wf_vault_def assms(2) p e .
qed

lemma indexes_frame:
  assumes ix: "indexes ign v c" and docs: "documents v' = documents v"
    and same: "\<forall>g \<in> fst ` set (documents v). objects v' g = objects v g"
  shows "indexes ign v' c"
proof -
  from ix have wk: "well_kept (host_of v) c" and ow: "\<And>k. set (owned c k) = set (owners ign v k)"
    by (simp_all add: indexes_def)
  have "owners ign v' k = owners ign v k" for k by (simp add: owners_def docs)
  moreover have "well_kept (host_of v') c"
    unfolding well_kept_def list_all_iff
  proof (intro conjI ballI)
    from wk show "distinct (map name c)" by (simp add: well_kept_def)
  next
    fix r assume r: "r \<in> set c"
    from wk r have k0: "files r \<noteq> []" "count r = length (files r)"
      "distinct (map (\<lambda>f. path (objects v f)) (files r))"
      by (simp_all add: well_kept_def list_all_iff)
    from k0 show "files r \<noteq> []" "count r = length (files r)" by simp_all
    have "map (\<lambda>f. path (objects v' f)) (files r) = map (\<lambda>f. path (objects v f)) (files r)"
    proof (intro map_cong refl)
      fix x assume "x \<in> set (files r)"
      with ix r have "x \<in> fst ` set (documents v)" by (rule files_in_vault)
      with same show "path (objects v' x) = path (objects v x)" by auto
    qed
    with k0(3) show "distinct (map (\<lambda>f. path (deref (host_of v') f)) (files r))"
      by (simp only: deref_host_of)
  qed
  ultimately show ?thesis using ow by (simp add: indexes_def)
qed

lemma wf_vault_snoc:
  assumes "wf_vault v" and "path (objects v f) \<notin> (\<lambda>d. path (objects v (fst d))) ` set (documents v)"
    and "extension (objects v f) = ''md''"
  shows "wf_vault \<lparr>objects = objects v, documents = documents v @ [(f, hdr)]\<rparr>"
  using assms by (auto simp: wf_vault_def)

lemma indexes_created:
  assumes wf: "wf_vault v" and ix: "indexes (ignoreFields (settings p)) v (cache p)"
    and fresh: "path (objects v f) \<notin> (\<lambda>d. path (objects v (fst d))) ` set (documents v)"
    and md: "extension (objects v f) = ''md''"
  shows "indexes (ignoreFields (settings p)) \<lparr>objects = objects v, documents = documents v @ [(f, hdr)]\<rparr>
           (cache (addFileToCache (host_of \<lparr>objects = objects v, documents = documents v @ [(f, hdr)]\<rparr>) now f p))"
proof -
  let ?ign = "ignoreFields (settings p)"
  let ?v' = "\<lparr>objects = objects v, documents = documents v @ [(f, hdr)]\<rparr>"
  let ?h = "host_of ?v'"
  have look: "getFileCache ?h f = hdr"
    using wf_vault_snoc [OF wf fresh md] by (intro host_lookup) simp_all
  have own: "set (owners ?ign ?v' k) = set (owners ?ign v k) \<union> (if declares ?ign hdr k then {f} else {})" for k
    by (auto simp: owners_def)
  from ix have wk: "well_kept ?h (cache p)"
    by (simp add: indexes_def well_kept_cong [of ?h "host_of v"])
  show ?thesis
  proof (cases hdr)
    case None
    with ix own look wk show ?thesis
      by (simp add: addFileToCache_def indexes_def declares_def)
  next
    case (Some fm)
    have "indexes ?ign ?v' (foldl (addEntry ?h ?ign f) (cache p) (flattenFrontmatter fm []))"
    proof (rule indexes_add)
      from wk show "well_kept ?h (cache p)" .
      from ix fresh show "alone ?h f (cache p)" by (intro alone_fresh [where v = v]) simp_all
      show "deref ?h = objects ?v'" by simp
      fix k
      from ix own [of k] Some
      show "set (owned (cache p) k) \<union> (if declares ?ign (Some fm) k then {f} else {}) = set (owners ?ign ?v' k)"
        by (simp add: indexes_def)
    qed
    with look Some show ?thesis by (simp add: addFileToCache_def)
  qed
qed

lemma wf_vault_filter:
  "wf_vault v \<Longrightarrow> wf_vault \<lparr>objects = objects v, documents = filter P (documents v)\<rparr>"
  by (auto simp: wf_vault_def distinct_map_filter list_all_iff)

lemma indexes_deleted:
  assumes wf: "wf_vault v" and ix: "indexes ign v c" and mem: "(f, old) \<in> set (documents v)"
    and h: "deref h = objects v"
  shows "indexes ign \<lparr>objects = objects v, documents = filter (\<lambda>d. fst d \<noteq> f) (documents v)\<rparr>
           (dropPath h (path (objects v f)) c)"
proof -
  let ?v' = "\<lparr>objects = objects v, documents = filter (\<lambda>d. fst d \<noteq> f) (documents v)\<rparr>"
  from ix h have wk: "well_kept h c" and ow: "\<And>k. set (owned c k) = set (owners ign v k)"
    by (simp_all add: indexes_def well_kept_cong [of h "host_of v"])
  have "set (owned (dropPath h (path (objects v f)) c) k) = set (owners ign ?v' k)" for k
  proof -
    have "set (owned (dropPath h (path (objects v f)) c) k)
            = {g \<in> set (owners ign v k). path (objects v g) \<noteq> path (objects v f)}"
      using wk ow [of k] h by (auto simp: owned_dropPath well_kept_def)
    also have "\<dots> = {g \<in> set (owners ign v k). g \<noteq> f}"
      using path_in_vault [OF wf mem] by (force simp: set_owners)
    also have "\<dots> = set (owners ign ?v' k)"
      by (auto simp: set_owners)
    finally show ?thesis .
  qed
  moreover from well_kept_dropPath [OF wk] h
  have "well_kept (host_of ?v') (dropPath h (path (objects v f)) c)"
    by (simp add: well_kept_cong [of h "host_of ?v'"])
  ultimately show ?thesis by (simp add: indexes_def)
qed

lemma map_fst_replace:
  "map (\<lambda>d. g (fst d)) (map (\<lambda>d. if fst d = f then (f, hdr) else d) docs) = map (\<lambda>d. g (fst d)) docs"
  by (induction docs) auto

lemma list_all_fst_replace:
  "list_all (\<lambda>d. Q (fst d)) (map (\<lambda>d. if fst d = f then (f, hdr) else d) docs)
     \<longleftrightarrow> list_all (\<lambda>d. Q (fst d)) docs"
  by (induction docs) auto

lemma wf_vault_replace:
  assumes "wf_vault v"
  shows "wf_vault \<lparr>objects = objects v, documents = map (\<lambda>d. if fst d = f then (f, hdr) else d) (documents v)\<rparr>"
proof -
  let ?docs = "map (\<lambda>d. if fst d = f then (f, hdr) else d) (documents v)"
  have p: "map (\<lambda>d. path (objects v (fst d))) ?docs = map (\<lambda>d. path (objects v (fst d))) (documents v)"
    by (rule map_fst_replace)
  have e: "list_all (\<lambda>d. extension (objects v (fst d)) = ''md'') ?docs
      \<longleftrightarrow> list_all (\<lambda>d. extension (objects v (fst d)) = ''md'') (documents v)"
    by (rule list_all_fst_replace)
  from assms show ?thesis unfolding wf_vault_def by (simp only: vault.select_convs p e)
qed

lemma mem_replace:
  "(f, old) \<in> set docs \<Longrightarrow> (f, hdr) \<in> set (map (\<lambda>d. if fst d = f then (f, hdr) else d) docs)"
  by (induction docs) auto

lemma mem_replace_other:
  "(x, hx) \<in> set docs \<Longrightarrow> x \<noteq> f \<Longrightarrow> (x, hx) \<in> set (map (\<lambda>d. if fst d = f then (f, hdr) else d) docs)"
  by (induction docs) auto

lemma set_owners_replace:
  assumes "(f, old) \<in> set (documents v)"
  shows "set (owners ign \<lparr>objects = objs, documents = map (\<lambda>d. if fst d = f then (f, hdr) else d) (documents v)\<rparr> k)
           = {x \<in> set (owners ign v k). x \<noteq> f} \<union> (if declares ign hdr k then {f} else {})"
    (is "set (owners ign ?v' k) = ?R")
proof (intro set_eqI iffI)
  fix x
  assume "x \<in> set (owners ign ?v' k)"
  then obtain d where d: "d \<in> set (documents v)"
    and x: "x = fst (if fst d = f then (f, hdr) else d)"
    and dec: "declares ign (snd (if fst d = f then (f, hdr) else d)) k"
    by (auto simp: owners_def)
  show "x \<in> ?R"
  proof (cases "fst d = f")
    case True
    with x dec show ?thesis by simp
  next
    case False
    with d x dec have "(x, snd d) \<in> set (documents v)" "declares ign (snd d) k" "x \<noteq> f" by simp_all
    then have "x \<in> set (owners ign v k)" by (auto simp: set_owners)
    with \<open>x \<noteq> f\<close> show ?thesis by simp
  qed
next
  fix x
  assume "x \<in> ?R"
  then consider (kept) "x \<in> set (owners ign v k)" "x \<noteq> f" | (new) "x = f" "declares ign hdr k"
    by (auto split: if_splits)
  then show "x \<in> set (owners ign ?v' k)"
  proof cases
    case kept
    then obtain hx where hx: "(x, hx) \<in> set (documents v)" and dx: "declares ign hx k"
      by (auto simp: set_owners)
    have "(x, hx) \<in> set (documents ?v')"
      using mem_replace_other [OF hx kept(2), of hdr] by (simp only: vault.select_convs)
    with dx show ?thesis unfolding set_owners by blast
  next
    case new
    have "(f, hdr) \<in> set (documents ?v')"
      using mem_replace [OF assms, of hdr] by (simp only: vault.select_convs)
    with new show ?thesis unfolding set_owners by blast
  qed
qed

subsection \<open>One notification at a time\<close>

lemma vault_md: "wf_vault v \<Longrightarrow> (f, hdr) \<in> set (documents v) \<Longrightarrow> extension (objects v f) = ''md''"
  by (force simp: wf_vault_def list_all_iff)

lemma indexes_changed:
  assumes wf: "wf_vault v" and ix: "indexes (ignoreFields (settings p)) v (cache p)"
    and mem: "(f, old) \<in> set (documents v)"
    and v': "v' = \<lparr>objects = objects v, documents = map (\<lambda>d. if fst d = f then (f, hdr) else d) (documents v)\<rparr>"
  shows "indexes (ignoreFields (settings p)) v'
           (cache (addFileToCache (host_of v') now f
                     (p\<lparr>cache := dropPath (host_of v') (path (objects v f)) (cache p)\<rparr>)))"
proof -
  let ?ign = "ignoreFields (settings p)"
  let ?h = "host_of v'"
  let ?rest = "\<lparr>objects = objects v, documents = filter (\<lambda>d. fst d \<noteq> f) (documents v)\<rparr>"
  let ?c1 = "dropPath ?h (path (objects v f)) (cache p)"
  have dh: "deref ?h = objects v" by (simp add: v')
  from wf have wf': "wf_vault v'" unfolding v' by (rule wf_vault_replace)
  have look: "getFileCache ?h f = hdr"
    by (rule host_lookup [OF wf']) (simp only: v' vault.select_convs mem_replace [OF mem])
  from indexes_deleted [OF wf ix mem dh] have ix1: "indexes ?ign ?rest ?c1" .
  then have wr: "well_kept (host_of ?rest) ?c1" and ow1: "\<And>k. set (owned ?c1 k) = set (owners ?ign ?rest k)"
    by (simp_all add: indexes_def)
  have wk1: "well_kept ?h ?c1"
    using wr well_kept_cong [of ?h "host_of ?rest" ?c1] dh by simp
  have rest: "set (owners ?ign ?rest k) = {x \<in> set (owners ?ign v k). x \<noteq> f}" for k
    by (auto simp: set_owners)
  have own: "set (owners ?ign v' k)
               = set (owned ?c1 k) \<union> (if declares ?ign hdr k then {f} else {})" for k
  proof -
    have "set (owners ?ign v' k) = {x \<in> set (owners ?ign v k). x \<noteq> f} \<union> (if declares ?ign hdr k then {f} else {})"
      unfolding v' by (rule set_owners_replace [OF mem])
    then show ?thesis by (simp only: ow1 rest)
  qed
  show ?thesis
  proof (cases hdr)
    case None
    with look wk1 own show ?thesis
      by (simp add: addFileToCache_def indexes_def declares_def)
  next
    case (Some fm)
    have "path (objects ?rest f) \<notin> (\<lambda>d. path (objects ?rest (fst d))) ` set (documents ?rest)"
    proof
      assume "path (objects ?rest f) \<in> (\<lambda>d. path (objects ?rest (fst d))) ` set (documents ?rest)"
      then obtain d where d: "d \<in> set (documents v)" "fst d \<noteq> f" "path (objects v (fst d)) = path (objects v f)"
        by auto
      with vault_entry_unique [OF wf, of "fst d" "snd d" f old] mem show False by simp
    qed
    with ix1 have al: "alone ?h f ?c1" by (intro alone_fresh [where v = ?rest]) (simp_all add: v')
    have "indexes ?ign v' (foldl (addEntry ?h ?ign f) ?c1 (flattenFrontmatter fm []))"
      using wk1 al
    proof (rule indexes_add)
      show "deref ?h = objects v'" by simp
      fix k
      from own [of k] Some
      show "set (owned ?c1 k) \<union> (if declares ?ign (Some fm) k then {f} else {}) = set (owners ?ign v' k)"
        by simp
    qed
    with look Some show ?thesis by (simp add: addFileToCache_def)
  qed
qed

text \<open>
  A rename of a markdown document to a new markdown path: the object has the new path
  when the handler runs, no owner has the old path any more, and the handler replaces
  nothing.
\<close>

lemma distinct_map_upd:
  "distinct (map g xs) \<Longrightarrow> y \<notin> g ` set xs \<Longrightarrow> distinct (map (g(a := y)) xs)"
  by (induction xs) (auto simp: image_iff)

lemma indexes_renamed:
  assumes wf: "wf_vault v" and ix: "indexes ign v c" and mem: "(f, hdr) \<in> set (documents v)"
    and fresh: "path t \<notin> (\<lambda>d. path (objects v (fst d))) ` set (documents v)"
    and md: "extension t = ''md''"
    and v': "v' = \<lparr>objects = (objects v)(f := t), documents = documents v\<rparr>"
    and h: "deref h = objects v'"
  shows "wf_vault v' \<and>
         indexes ign v'
           (map (\<lambda>field. field\<lparr>files := map (\<lambda>x. if path (deref h x) = path (objects v f) then f else x)
                                            (files field)\<rparr>) c)"
proof -
  let ?P = "\<lambda>x. path (objects v x)"
  let ?P' = "\<lambda>x. path (objects v' x)"
  have P': "?P' = ?P(f := path t)" by (rule ext) (simp add: v')
  from mem have old: "?P f \<in> (\<lambda>d. ?P (fst d)) ` set (documents v)"
    by (intro image_eqI [where x = "(f, hdr)"]) simp_all
  with fresh have ne: "path t \<noteq> ?P f" by metis
  have keep: "(if path (deref h x) = ?P f then f else x) = x" if "x \<in> fst ` set (documents v)" for x
  proof (cases "x = f")
    case True
    then show ?thesis by simp
  next
    case False
    with path_in_vault [OF wf mem that] show ?thesis by (simp add: h v')
  qed
  have same: "map (\<lambda>field. field\<lparr>files := map (\<lambda>x. if path (deref h x) = ?P f then f else x) (files field)\<rparr>) c = c"
  proof (intro map_idI)
    fix r assume r: "r \<in> set c"
    have "map (\<lambda>x. if path (deref h x) = ?P f then f else x) (files r) = files r"
      by (intro map_idI keep files_in_vault [OF ix r])
    then show "r\<lparr>files := map (\<lambda>x. if path (deref h x) = ?P f then f else x) (files r)\<rparr> = r"
      by simp
  qed
  have dm: "distinct (map ?P' xs)" if "distinct (map ?P xs)" and "set xs \<subseteq> fst ` set (documents v)"
    for xs
  proof -
    from that(2) fresh have "path t \<notin> ?P ` set xs" by force
    with that(1) show ?thesis unfolding P' by (rule distinct_map_upd)
  qed
  have wf': "wf_vault v'"
  proof -
    from wf have "distinct (map ?P (map fst (documents v)))" by (simp add: wf_vault_def comp_def)
    then have "distinct (map ?P' (map fst (documents v)))" by (rule dm) simp
    moreover from wf md have "list_all (\<lambda>d. extension (objects v' (fst d)) = ''md'') (documents v)"
      by (auto simp: wf_vault_def list_all_iff v')
    ultimately show ?thesis by (simp add: wf_vault_def comp_def v')
  qed
  from ix have wk: "well_kept (host_of v) c" and ow: "\<And>k. set (owned c k) = set (owners ign v k)"
    by (simp_all add: indexes_def)
  have "well_kept (host_of v') c"
    unfolding well_kept_def list_all_iff
  proof (intro conjI ballI)
    from wk show "distinct (map name c)" by (simp add: well_kept_def)
  next
    fix r assume r: "r \<in> set c"
    from wk r have k0: "files r \<noteq> []" "count r = length (files r)" "distinct (map ?P (files r))"
      by (simp_all add: well_kept_def list_all_iff)
    from k0 show "files r \<noteq> []" "count r = length (files r)" by simp_all
    have "set (files r) \<subseteq> fst ` set (documents v)"
      using files_in_vault [OF ix r] by blast
    from dm [OF k0(3) this] show "distinct (map (\<lambda>f. path (deref (host_of v') f)) (files r))"
      by simp
  qed
  moreover have "owners ign v' k = owners ign v k" for k by (simp add: owners_def v')
  ultimately have "indexes ign v' c" using ow by (simp add: indexes_def)
  with wf' same show ?thesis by simp
qed

text \<open>
  One notification: if the index represents the collection before the change, the
  notification path leaves an index that represents the collection after it.
\<close>

theorem indexes_step:
  assumes wf: "wf_vault v" and ix: "indexes (ignoreFields (settings p)) v (cache p)"
    and ev: "evolves v ev v'"
  shows "wf_vault v' \<and> indexes (ignoreFields (settings p)) v' (cache (dispatch (host_of v') now ev p))"
  using ev
proof cases
  case (created f t hdr)
  let ?v1 = "\<lparr>objects = (objects v)(f := t), documents = documents v\<rparr>"
  from created(3) have same: "\<forall>g \<in> fst ` set (documents v). objects ?v1 g = objects v g" by auto
  from wf_vault_frame [OF wf _ same] have wf1: "wf_vault ?v1" by simp
  from indexes_frame [OF ix _ same] have ix1: "indexes (ignoreFields (settings p)) ?v1 (cache p)" by simp
  have "(\<lambda>d. path (objects ?v1 (fst d))) ` set (documents ?v1)
          = (\<lambda>d. path (objects v (fst d))) ` set (documents v)"
    using created(3) by (intro image_cong) auto
  with created(4) have fresh: "path (objects ?v1 f) \<notin> (\<lambda>d. path (objects ?v1 (fst d))) ` set (documents ?v1)"
    by simp
  from created(5) have md: "extension (objects ?v1 f) = ''md''" by simp
  from wf_vault_snoc [OF wf1 fresh md, of hdr] indexes_created [OF wf1 ix1 fresh md, of hdr now] created(1,2) md
  show ?thesis by simp
next
  case (changed f old hdr)
  from wf changed(3) have "extension (objects v f) = ''md''" by (rule vault_md)
  moreover from wf have "wf_vault v'" unfolding changed(2) by (rule wf_vault_replace)
  ultimately show ?thesis
    using changed(1) indexes_changed [OF wf ix changed(3,2), of now]
    by (simp add: updateCacheForFile_def changed(2))
next
  case (deleted f old)
  from wf deleted(3) have "extension (objects v f) = ''md''" by (rule vault_md)
  moreover from wf have "wf_vault v'" unfolding deleted(2) by (rule wf_vault_filter)
  ultimately show ?thesis
    using deleted(1) indexes_deleted [OF wf ix deleted(3), of "host_of v'"]
    by (simp add: deleted(2))
next
  case (renamed f hdr t)
  from indexes_renamed [OF wf ix renamed(3,4,5,2), of "host_of v'"] renamed(1,5)
  show ?thesis by (simp add: renamed(2))
next
  case (other_created f t)
  then have same: "\<forall>g \<in> fst ` set (documents v). objects v' g = objects v g" by auto
  from wf_vault_frame [OF wf _ same] indexes_frame [OF ix _ same] other_created
  show ?thesis by simp
next
  case (other_renamed f t oldPath)
  then have same: "\<forall>g \<in> fst ` set (documents v). objects v' g = objects v g" by auto
  from wf_vault_frame [OF wf _ same] indexes_frame [OF ix _ same] other_renamed
  show ?thesis by simp
qed (use wf ix in \<open>simp_all add: updateCacheForFile_def\<close>)

subsection \<open>The rebuild as a sequence of additions\<close>

lemma strip_countFile: "strip (countFile st h f v r) = pushFile h f (strip r)"
  by (simp add: strip_def countFile_def pushFile_def)

lemma strip_new:
  "strip (countFile st h f v (newField st key))
     = \<lparr>name = key, count = 1, files = [f], valueStats = None\<rparr>"
  by (simp add: strip_def countFile_def newField_def)

lemma name_strip: "name (strip r) = name r"
  by (simp add: strip_def)

lemma sim_update:
  "keyed ign m \<Longrightarrow> map_of m key = Some r \<Longrightarrow>
   map (\<lambda>e. strip (snd e)) (AList.update key (countFile st h f v r) m)
     = update_first (\<lambda>r. name r = key) (pushFile h f) (map (\<lambda>e. strip (snd e)) m)"
proof (induction m)
  case Nil
  then show ?case by simp
next
  case (Cons e m)
  obtain k' r' where e: "e = (k', r')" by (cases e)
  from Cons.prems(1) e have n: "name r' = k'" and km: "keyed ign m"
    by (simp_all add: keyed_def)
  show ?case
  proof (cases "k' = key")
    case True
    with Cons.prems(2) e have "r' = r" by simp
    with True e n show ?thesis by (simp add: name_strip strip_countFile)
  next
    case False
    with Cons.prems(2) e have "map_of m key = Some r" by simp
    from Cons.IH [OF km this] False e n show ?thesis by (simp add: name_strip)
  qed
qed

lemma sim_find:
  "keyed ign m \<Longrightarrow>
   find (\<lambda>r. name r = key) (map (\<lambda>e. strip (snd e)) m) = map_option strip (map_of m key)"
proof (induction m)
  case Nil
  then show ?case by simp
next
  case (Cons e m)
  obtain k' r' where e: "e = (k', r')" by (cases e)
  from Cons.prems e have n: "name r' = k'" and km: "keyed ign m"
    by (simp_all add: keyed_def)
  from Cons.IH [OF km] e n show ?case by (simp add: name_strip)
qed

lemma sim_scanEntry:
  assumes "keyed (ignoreFields st) m" and "scanEntry st h f m kv = Inr m'"
  shows "map (\<lambda>e. strip (snd e)) m' = addEntry h (ignoreFields st) f (map (\<lambda>e. strip (snd e)) m) kv"
proof (cases "fst kv \<in> set (ignoreFields st)")
  case True
  with assms(2) show ?thesis by (simp add: scanEntry_def Let_def addEntry_ignored)
next
  case False
  show ?thesis
  proof (cases "map_of m (fst kv)")
    case None
    with False assms(2) have m': "m' = m @ [(fst kv, countFile st h f (snd kv) (newField st (fst kv)))]"
      by (auto simp: scanEntry_def Let_def obj_get_def split: if_splits)
    from None sim_find [OF assms(1), of "fst kv"]
    have "find (\<lambda>r. name r = fst kv) (map (\<lambda>e. strip (snd e)) m) = None" by simp
    with False m' show ?thesis by (simp add: addEntry_new strip_new)
  next
    case (Some r)
    with False assms(2) have m': "m' = AList.update (fst kv) (countFile st h f (snd kv) r) m"
      by (auto simp: scanEntry_def Let_def obj_get_def)
    from Some sim_find [OF assms(1), of "fst kv"]
    have "find (\<lambda>r. name r = fst kv) (map (\<lambda>e. strip (snd e)) m) = Some (strip r)" by simp
    with False have "addEntry h (ignoreFields st) f (map (\<lambda>e. strip (snd e)) m) kv
        = update_first (\<lambda>r. name r = fst kv) (pushFile h f) (map (\<lambda>e. strip (snd e)) m)"
      by (rule addEntry_old)
    with m' sim_update [OF assms(1) Some] show ?thesis by simp
  qed
qed

lemma sim_scanEntries:
  "keyed (ignoreFields st) m \<Longrightarrow> scanEntries st h f m kvs = Inr m' \<Longrightarrow>
   map (\<lambda>e. strip (snd e)) m' = foldl (addEntry h (ignoreFields st) f) (map (\<lambda>e. strip (snd e)) m) kvs"
proof (induction kvs arbitrary: m)
  case Nil
  then show ?case by simp
next
  case (Cons kv kvs)
  from Cons.prems(2) obtain m1 where m1: "scanEntry st h f m kv = Inr m1"
    and rest: "scanEntries st h f m1 kvs = Inr m'"
    by (auto split: sum.splits)
  from keyed_scanEntry [OF Cons.prems(1) m1] have "keyed (ignoreFields st) m1" .
  from Cons.IH [OF this rest] sim_scanEntry [OF Cons.prems(1) m1] show ?case by simp
qed

lemma sim_scanFiles:
  "keyed (ignoreFields st) m \<Longrightarrow> scanFiles st h cb tot fs m n = (Inr m', eff) \<Longrightarrow>
   map (\<lambda>e. strip (snd e)) m' = foldl (absorb (ignoreFields st) h) (map (\<lambda>e. strip (snd e)) m) fs"
proof (induction fs arbitrary: m n eff)
  case Nil
  then show ?case by simp
next
  case (Cons f fs)
  show ?case
  proof (cases "getFileCache h f")
    case None
    with Cons.prems(2) obtain eff' where "scanFiles st h cb tot fs m (n + 1) = (Inr m', eff')"
      by (auto split: prod.splits)
    from Cons.IH [OF Cons.prems(1) this] None show ?thesis by (simp add: absorb_def)
  next
    case (Some fm)
    with Cons.prems(2) obtain m1 eff' where m1: "scanEntries st h f m (flattenFrontmatter fm []) = Inr m1"
      and rest: "scanFiles st h cb tot fs m1 (n + 1) = (Inr m', eff')"
      by (auto split: sum.splits prod.splits)
    from keyed_scanEntries [OF Cons.prems(1) m1] have "keyed (ignoreFields st) m1" .
    from Cons.IH [OF this rest] sim_scanEntries [OF Cons.prems(1) m1] Some show ?thesis
      by (simp add: absorb_def)
  qed
qed

lemma indexes_extend:
  assumes ix: "indexes ign \<lparr>objects = objs, documents = v1\<rparr> c"
    and fresh: "path (objs f) \<notin> (\<lambda>d. path (objs (fst d))) ` set v1" and h: "deref h = objs"
  shows "indexes ign \<lparr>objects = objs, documents = v1 @ [(f, hdr)]\<rparr>
           (case hdr of None \<Rightarrow> c | Some fm \<Rightarrow> foldl (addEntry h ign f) c (flattenFrontmatter fm []))"
proof -
  let ?v = "\<lparr>objects = objs, documents = v1\<rparr>"
  let ?v' = "\<lparr>objects = objs, documents = v1 @ [(f, hdr)]\<rparr>"
  have own: "set (owners ign ?v' k) = set (owners ign ?v k) \<union> (if declares ign hdr k then {f} else {})" for k
    by (auto simp: owners_def)
  from ix h have wk: "well_kept h c"
    using well_kept_cong [of h "host_of ?v" c] by (simp add: indexes_def)
  show ?thesis
  proof (cases hdr)
    case None
    with ix own show ?thesis
      using well_kept_cong [of "host_of ?v'" "host_of ?v" c] by (simp add: indexes_def declares_def)
  next
    case (Some fm)
    have "indexes ign ?v' (foldl (addEntry h ign f) c (flattenFrontmatter fm []))"
    proof (rule indexes_add)
      from wk show "well_kept h c" .
      from ix fresh show "alone h f c" by (intro alone_fresh [where v = ?v]) (simp_all add: h)
      from h show "deref h = objects ?v'" by simp
      fix k
      from ix own [of k] Some
      show "set (owned c k) \<union> (if declares ign (Some fm) k then {f} else {}) = set (owners ign ?v' k)"
        by (simp add: indexes_def)
    qed
    with Some show ?thesis by simp
  qed
qed

lemma indexes_absorb_all:
  "wf_vault \<lparr>objects = objs, documents = v1 @ v2\<rparr> \<Longrightarrow> indexes ign \<lparr>objects = objs, documents = v1\<rparr> c \<Longrightarrow>
   indexes ign \<lparr>objects = objs, documents = v1 @ v2\<rparr>
     (foldl (absorb ign (host_of \<lparr>objects = objs, documents = v1 @ v2\<rparr>)) c (map fst v2))"
proof (induction v2 arbitrary: v1 c)
  case Nil
  then show ?case by simp
next
  case (Cons d v2)
  obtain f hdr where d: "d = (f, hdr)" by (cases d)
  let ?h = "host_of \<lparr>objects = objs, documents = v1 @ d # v2\<rparr>"
  from Cons.prems(1) d have wf: "wf_vault \<lparr>objects = objs, documents = (v1 @ [(f, hdr)]) @ v2\<rparr>" by simp
  from Cons.prems(1) d have look: "getFileCache ?h f = hdr"
    by (intro host_lookup) simp_all
  from Cons.prems(1) d have fresh: "path (objs f) \<notin> (\<lambda>d. path (objs (fst d))) ` set v1"
    by (auto simp: wf_vault_def)
  have "deref ?h = objs" by simp
  from indexes_extend [OF Cons.prems(2) fresh this, of hdr] look
  have "indexes ign \<lparr>objects = objs, documents = v1 @ [(f, hdr)]\<rparr> (absorb ign ?h c f)"
    by (simp add: absorb_def)
  from Cons.IH [OF wf this] d show ?case by simp
qed

lemma indexes_iff:
  "indexes ign v c \<longleftrightarrow>
     distinct (map name c) \<and>
     (\<forall>r \<in> set c. files r \<noteq> [] \<and> count r = length (files r)
                   \<and> distinct (map (\<lambda>f. path (objects v f)) (files r))
                   \<and> set (files r) = set (owners ign v (name r))) \<and>
     (\<forall>k. owners ign v k \<noteq> [] \<longrightarrow> k \<in> name ` set c)"
  (is "?L \<longleftrightarrow> ?R")
proof
  assume L: ?L
  then have wk: "well_kept (host_of v) c" and ow: "\<And>k. set (owned c k) = set (owners ign v k)"
    by (simp_all add: indexes_def)
  have "set (files r) = set (owners ign v (name r))" if "r \<in> set c" for r
    using files_owned [OF wk that] ow [of "name r"] by simp
  moreover have "k \<in> name ` set c" if "owners ign v k \<noteq> []" for k
  proof (rule ccontr)
    assume "k \<notin> name ` set c"
    then have "owned c k = []" by (simp add: owned_def find_name_None [symmetric])
    with ow [of k] that show False by simp
  qed
  ultimately show ?R using wk by (simp add: well_kept_def list_all_iff)
next
  assume R: ?R
  then have wk: "well_kept (host_of v) c" by (simp add: well_kept_def list_all_iff)
  have "set (owned c k) = set (owners ign v k)" for k
  proof (cases "k \<in> name ` set c")
    case True
    then obtain r where r: "r \<in> set c" and k: "k = name r" by auto
    with files_owned [OF wk r] R show ?thesis by simp
  next
    case False
    then have "owned c k = []" by (simp add: owned_def find_name_None [symmetric])
    moreover from False R have "owners ign v k = []" by blast
    ultimately show ?thesis by simp
  qed
  with wk show ?L by (simp add: indexes_def)
qed

subsection \<open>The rebuilt index represents the collection\<close>

lemma distinct_map_sort_key:
  "distinct (map g (sort_key f xs)) \<longleftrightarrow> distinct (map g xs)"
  by (simp add: distinct_map)

lemma map_name_values:
  "keyed ign m \<Longrightarrow> map name (map snd m) = map fst m"
  by (induction m) (simp_all add: keyed_def)

lemma keyed_filter: "keyed ign m \<Longrightarrow> keyed ign (filter P m)"
  by (simp add: keyed_def list_all_iff)

lemma keyed_sort_key: "keyed ign m \<Longrightarrow> keyed ign (sort_key f m)"
  by (simp add: keyed_def list_all_iff)

lemma distinct_names_obj_values:
  assumes k: "keyed ign m" and d: "distinct (map fst m)"
  shows "distinct (map name (obj_values m))"
proof -
  let ?P = "\<lambda>e. is_array_index (fst e)"
  let ?A = "sort_key (\<lambda>e. index_value (fst e)) (filter ?P m)"
  let ?B = "filter (\<lambda>e. \<not> ?P e) m"
  have "map name (obj_values m) = map fst ?A @ map fst ?B"
    using map_name_values [OF keyed_sort_key [OF keyed_filter [OF k]], of _ ?P]
      map_name_values [OF keyed_filter [OF k], of "\<lambda>e. \<not> ?P e"]
    by (simp add: obj_values_def)
  moreover have "distinct (map fst ?A)"
    using d by (simp add: distinct_map_sort_key distinct_map_filter)
  moreover have "distinct (map fst ?B)"
    using d by (simp add: distinct_map_filter)
  moreover have "set (map fst ?A) \<inter> set (map fst ?B) = {}"
    by auto
  ultimately show ?thesis by simp
qed

lemma strip_trimTopValues: "strip (trimTopValues r) = strip r"
  by (simp add: strip_def trimTopValues_def)

lemma strip_fields: "name (strip r) = name r" "count (strip r) = count r" "files (strip r) = files r"
  by (simp_all add: strip_def)

lemma rebuild_indexes:
  assumes wf: "wf_vault v" and ret: "returned (rebuild (host_of v) cb now p) = Inr c"
  shows "indexes (ignoreFields (settings p)) v c"
proof -
  let ?ign = "ignoreFields (settings p)"
  from ret obtain m eff where
    sf: "scanFiles (settings p) (host_of v) cb (length (getMarkdownFiles (host_of v)))
           (getMarkdownFiles (host_of v)) [] 0 = (Inr m, eff)"
    and c: "c = sortByCountDesc count (obj_values
           (if analyzeValues (settings p) then map (\<lambda>e. (fst e, trimTopValues (snd e))) m else m))"
    by (rule rebuild_cases)
  let ?m = "if analyzeValues (settings p) then map (\<lambda>e. (fst e, trimTopValues (snd e))) m else m"
  let ?c1 = "map (\<lambda>e. strip (snd e)) m"
  have files: "getMarkdownFiles (host_of v) = map fst (documents v)" by simp
  have k0: "keyed ?ign []" by (simp add: keyed_def)
  from keyed_scanFiles [OF k0 sf] have km: "keyed ?ign m" .
  then have km': "keyed ?ign ?m" by (auto simp: keyed_def list_all_iff trimTopValues_name)
  from sim_scanFiles [OF k0 sf] have c1: "?c1 = foldl (absorb ?ign (host_of v)) [] (map fst (documents v))"
    by (simp only: files list.map)
  have ix0: "indexes ?ign \<lparr>objects = objects v, documents = []\<rparr> []"
    by (simp add: indexes_def well_kept_def owned_def owners_def)
  have v: "\<lparr>objects = objects v, documents = documents v\<rparr> = v" by (cases v) simp
  from wf have "wf_vault \<lparr>objects = objects v, documents = [] @ documents v\<rparr>" by (simp add: v)
  from indexes_absorb_all [OF this ix0] c1 have ix1: "indexes ?ign v ?c1" by (simp add: v)
  have same: "map (\<lambda>e. strip (snd e)) ?m = ?c1" by (simp add: strip_trimTopValues comp_def)
  have fst_m: "map fst ?m = map fst m" by (simp add: comp_def)
  from km have names1: "map name ?c1 = map fst m"
    by (induction m) (simp_all add: keyed_def strip_fields)
  from ix1 have R: "distinct (map name ?c1) \<and>
     (\<forall>r \<in> set ?c1. files r \<noteq> [] \<and> count r = length (files r) \<and> distinct (map (\<lambda>f. path (objects v f)) (files r))
                   \<and> set (files r) = set (owners ?ign v (name r))) \<and>
     (\<forall>k. owners ?ign v k \<noteq> [] \<longrightarrow> k \<in> name ` set ?c1)"
    by (rule iffD1 [OF indexes_iff])
  from R have R1: "distinct (map name ?c1)" by (rule conjunct1)
  from R have R2: "\<And>r. r \<in> set ?c1 \<Longrightarrow> files r \<noteq> [] \<and> count r = length (files r)
                   \<and> distinct (map (\<lambda>f. path (objects v f)) (files r)) \<and> set (files r) = set (owners ?ign v (name r))"
    by blast
  from R have R3: "\<And>k. owners ?ign v k \<noteq> [] \<Longrightarrow> k \<in> name ` set ?c1"
    by blast
  have setc: "set c = snd ` set ?m"
    by (simp only: c set_sortByCountDesc set_obj_values)
  have stripped: "strip r \<in> set ?c1" if "r \<in> set c" for r
  proof -
    from that setc obtain e where "e \<in> set ?m" "r = snd e" by auto
    then have "strip r \<in> set (map (\<lambda>e. strip (snd e)) ?m)" by force
    then show ?thesis by (simp only: same)
  qed
  have d: "distinct (map name c)"
  proof -
    from R1 have "distinct (map fst m)" unfolding names1 .
    then have "distinct (map fst ?m)" unfolding fst_m .
    from distinct_names_obj_values [OF km' this]
    show ?thesis by (simp only: c sortByCountDesc_def distinct_map_sort_key)
  qed
  have each: "files r \<noteq> [] \<and> count r = length (files r) \<and> distinct (map (\<lambda>f. path (objects v f)) (files r))
                \<and> set (files r) = set (owners ?ign v (name r))" if "r \<in> set c" for r
    using R2 [OF stripped [OF that]] by (simp add: strip_fields)
  have complete: "k \<in> name ` set c" if "owners ?ign v k \<noteq> []" for k
  proof -
    from R3 [OF that] obtain r1 where "r1 \<in> set ?c1" "k = name r1" by auto
    then obtain e where e: "e \<in> set m" and k: "k = name (snd e)" by (auto simp: strip_fields)
    let ?e = "if analyzeValues (settings p) then (fst e, trimTopValues (snd e)) else e"
    from e have "?e \<in> set ?m" by auto
    then have "snd ?e \<in> set c" using setc by blast
    moreover have "name (snd ?e) = k" using k by (simp add: trimTopValues_name)
    ultimately show ?thesis by force
  qed
  from d each complete show ?thesis unfolding indexes_iff by blast
qed

lemma summary_subset:
  assumes "indexes ign v c" and "indexes ign v c'"
  shows "summary c \<subseteq> summary c'"
proof
  fix s assume "s \<in> summary c"
  then obtain r where r: "r \<in> set c" and s: "s = (name r, count r, set (files r))"
    by (auto simp: summary_def)
  from assms(1) r have fr: "files r \<noteq> []" "count r = length (files r)" "distinct (map (\<lambda>f. path (objects v f)) (files r))"
    "set (files r) = set (owners ign v (name r))"
    by (simp_all add: indexes_iff)
  then have "owners ign v (name r) \<noteq> []" by auto
  with assms(2) have "name r \<in> name ` set c'" by (simp add: indexes_iff)
  then obtain r' where r': "r' \<in> set c'" and n: "name r' = name r" by auto
  from assms(2) r' have fr': "count r' = length (files r')" "distinct (map (\<lambda>f. path (objects v f)) (files r'))"
    "set (files r') = set (owners ign v (name r'))"
    by (simp_all add: indexes_iff)
  from fr(3) fr'(2) have "distinct (files r)" "distinct (files r')" by (simp_all add: distinct_map)
  then have "length (files r) = card (set (files r))" "length (files r') = card (set (files r'))"
    by (simp_all add: distinct_card)
  with fr fr' n have "count r' = count r" "set (files r') = set (files r)" by simp_all
  with n s have "s = (name r', count r', set (files r'))" by simp
  with r' show "s \<in> summary c'" by (auto simp: summary_def)
qed

lemma same_summary: "indexes ign v c \<Longrightarrow> indexes ign v c' \<Longrightarrow> summary c = summary c'"
  by (intro equalityI summary_subset)

lemma history_indexes:
  assumes "history v0 p0 v p" and "wf_vault v0" and "indexes (ignoreFields (settings p0)) v0 (cache p0)"
  shows "wf_vault v \<and> settings p = settings p0 \<and> indexes (ignoreFields (settings p0)) v (cache p)"
  using assms
proof (induction rule: history.induct)
  case start
  then show ?case by simp
next
  case (step v p ev v' now)
  then have wf: "wf_vault v" and st: "settings p = settings p0"
    and ix: "indexes (ignoreFields (settings p)) v (cache p)" by simp_all
  from indexes_step [OF wf ix step.hyps(2), of now] st show ?case
    by (simp add: settings_dispatch)
qed

subsection \<open>Incremental updates against a rebuild\<close>

lemma rebuild_represents:
  assumes "wf_vault v" and "indexes (ignoreFields (settings p)) v (cache p)"
    and "returned (getFields (host_of v) cb now now' (clearCache p)) = Inr c"
  shows "summary (cache p) = summary c \<and> distinct (map name (cache p)) \<and> distinct (map name c)"
proof -
  from assms(3) have "returned (rebuild (host_of v) cb now' (clearCache p)) = Inr c"
    by (simp add: getFields_def clearCache_def)
  from rebuild_indexes [OF assms(1) this] have ix': "indexes (ignoreFields (settings p)) v c"
    by (simp add: clearCache_def)
  from assms(2) ix' have "summary (cache p) = summary c" by (rule same_summary)
  moreover from assms(2) ix' have "distinct (map name (cache p))" "distinct (map name c)"
    by (simp_all add: indexes_def well_kept_def)
  ultimately show ?thesis by simp
qed

text \<open>
  The index that a first read stores represents the collection it has read, and so does
  the index after any history of notifications that follows.
\<close>

lemma first_read_indexes:
  assumes "wf_vault v0"
    and "returned (getFields (host_of v0) cb0 t0 t0' (initial st)) = Inr c0"
  shows "settings (after (getFields (host_of v0) cb0 t0 t0' (initial st))) = st
         \<and> indexes (ignoreFields st) v0 (cache (after (getFields (host_of v0) cb0 t0 t0' (initial st))))"
proof -
  let ?first = "after (getFields (host_of v0) cb0 t0 t0' (initial st))"
  from assms(2) have r: "returned (rebuild (host_of v0) cb0 t0' (initial st)) = Inr c0"
    by (simp add: getFields_def initial_def)
  then have p0: "?first = (initial st)\<lparr>cache := c0, lastUpdate := t0'\<rparr>"
    using rebuild_stores [OF r] by (simp add: getFields_def initial_def)
  from rebuild_indexes [OF assms(1) r] have "indexes (ignoreFields st) v0 c0"
    by (simp add: initial_def)
  with p0 show ?thesis by (simp add: initial_def)
qed

lemma history_after_first_read:
  assumes "wf_vault v0"
    and "returned (getFields (host_of v0) cb0 t0 t0' (initial st)) = Inr c0"
    and "history v0 (after (getFields (host_of v0) cb0 t0 t0' (initial st))) v p"
  shows "wf_vault v \<and> settings p = st \<and> indexes (ignoreFields st) v (cache p)"
proof -
  from first_read_indexes [OF assms(1,2)] history_indexes [OF assms(3,1)]
  show ?thesis by simp
qed

text \<open>
  Names, counts and owners. Start from the index that the first read builds for a
  collection of markdown documents with distinct paths. Let any sequence of notifications
  follow, each for a change of the collection as \<open>evolves\<close> describes it. Then the index
  has the same records as a rebuild from a cold cache over the final collection, if that
  rebuild completes: the same names, each once, with the same counts and the same sets
  of owners. Value statistics and the order of the records are not compared.
\<close>

theorem incremental_matches_rebuild:
  assumes "wf_vault v0"
    and "returned (getFields (host_of v0) cb0 t0 t0' (initial st)) = Inr c0"
    and "history v0 (after (getFields (host_of v0) cb0 t0 t0' (initial st))) v p"
    and "returned (getFields (host_of v) cb now now' (clearCache p)) = Inr c"
  shows "summary (cache p) = summary c \<and> distinct (map name (cache p)) \<and> distinct (map name c)"
proof -
  from history_after_first_read [OF assms(1-3)] have "wf_vault v" "settings p = st"
    "indexes (ignoreFields (settings p)) v (cache p)" by simp_all
  from rebuild_represents [OF this(1,3) assms(4)] show ?thesis .
qed

text \<open>
  Along such a history every count is the length of its owning list, and no owning list
  holds two files that have the same path in the collection as it is then.
\<close>

theorem history_counted_unique:
  assumes "wf_vault v0"
    and "returned (getFields (host_of v0) cb0 t0 t0' (initial st)) = Inr c0"
    and "history v0 (after (getFields (host_of v0) cb0 t0 t0' (initial st))) v p"
  shows "counted (cache p) \<and> unique_owners (host_of v) (cache p)"
proof -
  from history_after_first_read [OF assms] have "well_kept (host_of v) (cache p)"
    by (simp add: indexes_def)
  then show ?thesis by (simp add: well_kept_def counted_def unique_owners_def list_all_iff)
qed

theorem incremental_matches_rebuild_example:
  "wf_vault scenario_vault
   \<and> returned (getFields (host_of scenario_vault) False 1 2 (initial DEFAULT_SETTINGS))
       = Inr [\<lparr>name = ''tags'', count = 2, files = [doc_A, doc_B], valueStats = None\<rparr>,
              \<lparr>name = ''author.name'', count = 1, files = [doc_A], valueStats = None\<rparr>]
   \<and> history scenario_vault (after (getFields (host_of scenario_vault) False 1 2 (initial DEFAULT_SETTINGS)))
        scenario_vault_edited
        (dispatch (host_of scenario_vault_edited) 5 (Changed doc_B)
           (after (getFields (host_of scenario_vault) False 1 2 (initial DEFAULT_SETTINGS))))
   \<and> summary (cache (dispatch (host_of scenario_vault_edited) 5 (Changed doc_B)
           (after (getFields (host_of scenario_vault) False 1 2 (initial DEFAULT_SETTINGS)))))
       = summary [\<lparr>name = ''author.name'', count = 2, files = [doc_A, doc_B], valueStats = None\<rparr>,
                  \<lparr>name = ''tags'', count = 1, files = [doc_A], valueStats = None\<rparr>]"
proof -
  let ?first = "after (getFields (host_of scenario_vault) False 1 2 (initial DEFAULT_SETTINGS))"
  let ?p = "dispatch (host_of scenario_vault_edited) 5 (Changed doc_B) ?first"
  have wf: "wf_vault scenario_vault"
    by code_simp
  have r0: "returned (getFields (host_of scenario_vault) False 1 2 (initial DEFAULT_SETTINGS))
       = Inr [\<lparr>name = ''tags'', count = 2, files = [doc_A, doc_B], valueStats = None\<rparr>,
              \<lparr>name = ''author.name'', count = 1, files = [doc_A], valueStats = None\<rparr>]"
    by code_simp
  have ed: "scenario_vault_edited
      = \<lparr>objects = objects scenario_vault,
         documents = map (\<lambda>d. if fst d = doc_B then (doc_B, Some [(''author'', JObj [(''name'', JStr ''Al'')])]) else d)
                       (documents scenario_vault)\<rparr>"
    by (simp add: scenario_vault_edited_def scenario_vault_def doc_A_def doc_B_def doc_C_def)
  have ev: "evolves scenario_vault (Changed doc_B) scenario_vault_edited"
    unfolding ed by (rule evolves.changed [where old = "Some [(''tags'', JArr [JStr ''z''])]"])
      (simp add: scenario_vault_def)
  have h: "history scenario_vault ?first scenario_vault_edited ?p"
    by (rule history.step [OF history.start ev])
  have r: "returned (getFields (host_of scenario_vault_edited) False 6 7 (clearCache ?p))
       = Inr [\<lparr>name = ''author.name'', count = 2, files = [doc_A, doc_B], valueStats = None\<rparr>,
              \<lparr>name = ''tags'', count = 1, files = [doc_A], valueStats = None\<rparr>]"
    by code_simp
  from incremental_matches_rebuild [OF wf r0 h r] wf r0 h show ?thesis by blast
qed

end
